theory Spec2Isabelle
  imports Main "HOL-Library.Word" "HOL-Library.Sublist"
begin

section \<open>JavaScript strings\<close>

text \<open>
  The scripts of the repository work on JavaScript strings, which are sequences of 16-bit
  UTF-16 code units.  A string is modelled as a list of 16-bit words; \<open>js\<close> turns an ASCII
  literal into such a list.
\<close>

type_synonym code_unit = "16 word"
type_synonym jsstring = "code_unit list"

definition js :: "string \<Rightarrow> jsstring" where
  "js cs = map of_char cs"

text \<open>
  ECMAScript \<open>LineTerminator\<close> and \<open>WhiteSpace\<close>.  \<open>String.prototype.trim\<close> and the
  regular-expression class \<open>\s\<close> use their union.
\<close>

definition is_line_terminator :: "code_unit \<Rightarrow> bool" where
  "is_line_terminator c \<longleftrightarrow> c = 0x0A \<or> c = 0x0D \<or> c = 0x2028 \<or> c = 0x2029"

definition is_white_space :: "code_unit \<Rightarrow> bool" where
  "is_white_space c \<longleftrightarrow>
     c = 0x09 \<or> c = 0x0B \<or> c = 0x0C \<or> c = 0x20 \<or> c = 0xA0 \<or> c = 0x1680 \<or>
     (0x2000 \<le> c \<and> c \<le> 0x200A) \<or> c = 0x202F \<or> c = 0x205F \<or> c = 0x3000 \<or> c = 0xFEFF"

definition is_space :: "code_unit \<Rightarrow> bool" where
  "is_space c \<longleftrightarrow> is_white_space c \<or> is_line_terminator c"

text \<open>\<open>s.trim()\<close>: white space and line terminators removed from both ends.\<close>

definition trim :: "jsstring \<Rightarrow> jsstring" where
  "trim s = rev (dropWhile is_space (rev (dropWhile is_space s)))"

text \<open>\<open>s.includes(w)\<close>: \<open>w\<close> occurs in \<open>s\<close> as a contiguous substring.\<close>

fun js_includes :: "'a list \<Rightarrow> 'a list \<Rightarrow> bool" where
  "js_includes [] w = (w = [])"
| "js_includes (c # s) w = (prefix w (c # s) \<or> js_includes s w)"

text \<open>
  \<open>s.split(sep)\<close> with a string separator: the text is scanned from the left, every
  occurrence of the separator found closes the current segment and is skipped.  The result
  always has at least one segment, so the first equation of \<open>cons_first\<close> is never used by
  \<open>split_at\<close>.  With the empty separator JavaScript returns the code units one by one.
\<close>

fun cons_first :: "'a \<Rightarrow> 'a list list \<Rightarrow> 'a list list" where
  "cons_first c [] = [[c]]"
| "cons_first c (seg # segs) = (c # seg) # segs"

function split_at :: "'a list \<Rightarrow> 'a list \<Rightarrow> 'a list list" where
  "split_at sep [] = [[]]"
| "split_at sep (c # s) =
     (if sep \<noteq> [] \<and> prefix sep (c # s)
      then [] # split_at sep (drop (length sep) (c # s))
      else cons_first c (split_at sep s))"
  by pat_completeness auto
termination
  by (relation "measure (\<lambda>(sep, s). length s)") auto

definition split :: "'a list \<Rightarrow> 'a list \<Rightarrow> 'a list list" where
  "split s sep = (if sep = [] then map (\<lambda>c. [c]) s else split_at sep s)"

text \<open>\<open>xs.join(sep)\<close>.\<close>

fun join :: "'a list list \<Rightarrow> 'a list \<Rightarrow> 'a list" where
  "join [] sep = []"
| "join [x] sep = x"
| "join (x # y # ys) sep = x @ sep @ join (y # ys) sep"

text \<open>A separator no proper prefix of which is also a suffix of it.\<close>

definition unbordered :: "'a list \<Rightarrow> bool" where
  "unbordered sep \<longleftrightarrow>
     (\<forall>k. 0 < k \<and> k < length sep \<longrightarrow> take k sep \<noteq> drop (length sep - k) sep)"

section \<open>Splitting the deck into slides\<close>

text \<open>
  \<open>verify-slides.js\<close> and the tests of \<open>visual.test.js\<close> split the text on the delimiter
  and keep every segment; \<open>generate-preview.js\<close> filters out the segments that are empty
  after trimming.
\<close>

definition delimiter :: jsstring where
  "delimiter = js ''---\<newline>''"

definition slideArray_verify :: "jsstring \<Rightarrow> jsstring list" where
  "slideArray_verify slides = split slides delimiter"

definition slideArray_preview :: "jsstring \<Rightarrow> jsstring list" where
  "slideArray_preview slides = filter (\<lambda>s. trim s \<noteq> []) (split slides delimiter)"

section \<open>Regular expressions\<close>

text \<open>
  The scripts use regular-expression literals with \<open>String.prototype.replace\<close> and
  \<open>String.prototype.match\<close>.  The fragment of the ECMAScript pattern language they need is
  embedded as a datatype, with a backtracking matcher that returns the possible outcomes of
  a pattern in the order in which the ECMAScript matcher tries them.  Flags are passed as
  arguments: \<open>ml\<close> is the \<open>m\<close> flag, and \<open>replace_all\<close> is \<open>replace\<close> with the \<open>g\<close> flag.
\<close>

text \<open>Members of a character class: a code unit, \<open>\s\<close>, \<open>\S\<close>, \<open>\d\<close> and \<open>\w\<close>.\<close>

datatype class_item = CChar code_unit | CSpace | CNonSpace | CDigit | CWord

fun class_item_ok :: "class_item \<Rightarrow> code_unit \<Rightarrow> bool" where
  "class_item_ok (CChar d) c = (c = d)"
| "class_item_ok CSpace c = is_space c"
| "class_item_ok CNonSpace c = (\<not> is_space c)"
| "class_item_ok CDigit c = (0x30 \<le> c \<and> c \<le> 0x39)"
| "class_item_ok CWord c =
     ((0x61 \<le> c \<and> c \<le> 0x7A) \<or> (0x41 \<le> c \<and> c \<le> 0x5A) \<or> (0x30 \<le> c \<and> c \<le> 0x39) \<or> c = 0x5F)"

text \<open>
  \<open>Cls neg items\<close> is a bracket class, negated when \<open>neg\<close> holds; \<open>Dot\<close> is \<open>.\<close>, which
  excludes line terminators; \<open>Bol\<close> and \<open>Eol\<close> are \<open>^\<close> and \<open>$\<close>; \<open>Grp k r\<close> is the
  \<open>k\<close>-th capturing group; the flag of \<open>Star\<close> and \<open>Plus\<close> says whether the quantifier
  is greedy (\<open>r*\<close>, \<open>r+\<close>) or lazy (\<open>r*?\<close>, \<open>r+?\<close>); \<open>Opt r\<close> is \<open>r?\<close>.
\<close>

datatype regex =
    Eps
  | Chr code_unit
  | Dot
  | Cls bool "class_item list"
  | Bol
  | Eol
  | Seq regex regex
  | Grp nat regex
  | Star bool regex
  | Plus bool regex
  | Opt regex

text \<open>
  A matcher state is the current index into the input and the captures recorded so far,
  the most recent first; a capture is the number of its group with the start and the end
  index of the text it matched.
\<close>

type_synonym captures = "(nat \<times> nat \<times> nat) list"
type_synonym mstate = "nat \<times> captures"

text \<open>
  Each iteration of a quantifier starts with the captures of the groups inside the
  quantified pattern reset.
\<close>

fun groups :: "regex \<Rightarrow> nat list" where
  "groups (Seq a b) = groups a @ groups b"
| "groups (Grp k r) = k # groups r"
| "groups (Star g r) = groups r"
| "groups (Plus g r) = groups r"
| "groups (Opt r) = groups r"
| "groups r = []"

definition clear :: "regex \<Rightarrow> mstate \<Rightarrow> mstate" where
  "clear r x = (fst x, filter (\<lambda>c. fst c \<notin> set (groups r)) (snd x))"

text \<open>
  ECMAScript \<open>RepeatMatcher\<close> with no lower and no upper bound: an iteration that consumes
  no input is rejected.  A greedy quantifier tries another iteration before it tries to
  stop, a lazy one the other way round.  The matcher never moves past the end of the input
  (bound \<open>n\<close>); the test \<open>fst y \<le> n\<close> only makes this visible to the termination proof.
\<close>

function repeat :: "bool \<Rightarrow> nat \<Rightarrow> (mstate \<Rightarrow> mstate list) \<Rightarrow> mstate \<Rightarrow> mstate list" where
  "repeat greedy n step x =
     (let more = concat (map (repeat greedy n step)
                   (filter (\<lambda>y. fst x < fst y \<and> fst y \<le> n) (step x)))
      in if greedy then more @ [x] else x # more)"
  by pat_completeness auto
termination
  by (relation "measure (\<lambda>(greedy, n, step, x). n - fst x)") auto

declare repeat.simps [simp del]

text \<open>
  \<open>m ml s r x\<close>: the states in which pattern \<open>r\<close> can end when started on input \<open>s\<close> in
  state \<open>x\<close>, in backtracking order.
\<close>

fun m :: "bool \<Rightarrow> jsstring \<Rightarrow> regex \<Rightarrow> mstate \<Rightarrow> mstate list" where
  "m ml s Eps x = [x]"
| "m ml s (Chr c) x =
     (if fst x < length s \<and> s ! fst x = c then [(Suc (fst x), snd x)] else [])"
| "m ml s Dot x =
     (if fst x < length s \<and> \<not> is_line_terminator (s ! fst x) then [(Suc (fst x), snd x)] else [])"
| "m ml s (Cls neg items) x =
     (if fst x < length s \<and> (neg \<noteq> (\<exists>it\<in>set items. class_item_ok it (s ! fst x)))
      then [(Suc (fst x), snd x)] else [])"
| "m ml s Bol x =
     (if fst x = 0 \<or> (ml \<and> fst x \<le> length s \<and> is_line_terminator (s ! (fst x - 1)))
      then [x] else [])"
| "m ml s Eol x =
     (if fst x = length s \<or> (ml \<and> fst x < length s \<and> is_line_terminator (s ! fst x))
      then [x] else [])"
| "m ml s (Seq a b) x = concat (map (m ml s b) (m ml s a x))"
| "m ml s (Grp k r) x = map (\<lambda>y. (fst y, (k, fst x, fst y) # snd y)) (m ml s r x)"
| "m ml s (Star greedy r) x = repeat greedy (length s) (\<lambda>y. m ml s r (clear r y)) x"
| "m ml s (Plus greedy r) x =
     concat (map (repeat greedy (length s) (\<lambda>y. m ml s r (clear r y))) (m ml s r (clear r x)))"
| "m ml s (Opt r) x = filter (\<lambda>y. fst x < fst y) (m ml s r (clear r x)) @ [x]"

definition seqs :: "regex list \<Rightarrow> regex" where
  "seqs rs = foldr Seq rs Eps"

definition lit :: "jsstring \<Rightarrow> regex" where
  "lit w = seqs (map Chr w)"

text \<open>
  \<open>RegExpBuiltinExec\<close>: the match is tried at \<open>lastIndex\<close>, then at the next index, up to
  the end of the input; the result is the start index, the end index and the captures of
  the first outcome, or \<open>None\<close> for JavaScript's \<open>null\<close>.
\<close>

fun first_some :: "('a \<Rightarrow> 'b option) \<Rightarrow> 'a list \<Rightarrow> 'b option" where
  "first_some f [] = None"
| "first_some f (x # xs) = (case f x of Some y \<Rightarrow> Some y | None \<Rightarrow> first_some f xs)"

definition match_at :: "bool \<Rightarrow> regex \<Rightarrow> jsstring \<Rightarrow> nat \<Rightarrow> (nat \<times> nat \<times> captures) option" where
  "match_at ml r s i = (case m ml s r (i, []) of [] \<Rightarrow> None | y # _ \<Rightarrow> Some (i, fst y, snd y))"

definition exec :: "bool \<Rightarrow> regex \<Rightarrow> jsstring \<Rightarrow> nat \<Rightarrow> (nat \<times> nat \<times> captures) option" where
  "exec ml r s lastIndex = first_some (match_at ml r s) [lastIndex ..< Suc (length s)]"

text \<open>
  Replacement strings: literal text, \<open>$k\<close> and \<open>$&\<close>.  A group that did not take part in
  the match is replaced by the empty string.
\<close>

datatype piece = Txt jsstring | Ref nat | Whole

definition capture :: "jsstring \<Rightarrow> captures \<Rightarrow> nat \<Rightarrow> jsstring" where
  "capture s cs k = (case map_of cs k of None \<Rightarrow> [] | Some (a, b) \<Rightarrow> take (b - a) (drop a s))"

fun expand :: "jsstring \<Rightarrow> nat \<times> nat \<times> captures \<Rightarrow> piece \<Rightarrow> jsstring" where
  "expand s (p, e, cs) (Txt w) = w"
| "expand s (p, e, cs) (Ref k) = capture s cs k"
| "expand s (p, e, cs) Whole = take (e - p) (drop p s)"

definition substitution :: "jsstring \<Rightarrow> nat \<times> nat \<times> captures \<Rightarrow> piece list \<Rightarrow> jsstring" where
  "substitution s mt tmpl = concat (map (expand s mt) tmpl)"

text \<open>\<open>s.replace(r, tmpl)\<close> for a pattern without the \<open>g\<close> flag: the first match only.\<close>

definition replace_first :: "bool \<Rightarrow> regex \<Rightarrow> piece list \<Rightarrow> jsstring \<Rightarrow> jsstring" where
  "replace_first ml r tmpl s =
     (case exec ml r s 0 of
        None \<Rightarrow> s
      | Some (p, e, cs) \<Rightarrow> take p s @ substitution s (p, e, cs) tmpl @ drop e s)"

text \<open>The matcher only moves forward; the loop of the global replace relies on it.\<close>

lemma repeat_cases:
  "y \<in> set (repeat g n step x) \<longleftrightarrow>
     y = x \<or> (\<exists>z\<in>set (step x). fst x < fst z \<and> fst z \<le> n \<and> y \<in> set (repeat g n step z))"
  by (subst repeat.simps) (auto simp: Let_def)

lemma repeat_mono: "y \<in> set (repeat g n step x) \<Longrightarrow> fst x \<le> fst y"
proof (induction g n step x rule: repeat.induct)
  case (1 greedy n step x)
  from "1.prems" consider "y = x"
    | z where "z \<in> set (step x)" "fst x < fst z" "fst z \<le> n" "y \<in> set (repeat greedy n step z)"
    by (subst (asm) repeat_cases) blast
  then show ?case
  proof cases
    case 1
    then show ?thesis by simp
  next
    case 2
    then have "fst z \<le> fst y" using "1.IH" [of z] by simp
    then show ?thesis using 2(2) by simp
  qed
qed

lemma m_mono: "y \<in> set (m ml s r x) \<Longrightarrow> fst x \<le> fst y"
proof (induction r arbitrary: x y)
  case (Seq a b)
  from Seq.prems obtain z where "z \<in> set (m ml s a x)" "y \<in> set (m ml s b z)" by auto
  then show ?case using Seq.IH(1) [of z x] Seq.IH(2) [of y z] by simp
next
  case (Grp k r)
  then show ?case by (auto dest!: Grp.IH)
next
  case (Star g r)
  then show ?case by (auto dest: repeat_mono)
next
  case (Plus g r)
  from Plus.prems obtain z where z: "z \<in> set (m ml s r (clear r x))"
    "y \<in> set (repeat g (length s) (\<lambda>y. m ml s r (clear r y)) z)"
    by auto
  have "fst x \<le> fst z" using Plus.IH [OF z(1)] by (simp add: clear_def)
  moreover have "fst z \<le> fst y" using repeat_mono [OF z(2)] .
  ultimately show ?case by simp
next
  case (Opt r)
  then show ?case by (auto dest!: Opt.IH simp: clear_def)
qed (auto split: if_splits)

lemma first_some_mem: "first_some f xs = Some y \<Longrightarrow> \<exists>x\<in>set xs. f x = Some y"
  by (induction xs) (auto split: option.splits)

lemma exec_bounds:
  assumes "exec ml r s i = Some (p, e, cs)"
  shows "i \<le> p \<and> p \<le> length s \<and> p \<le> e"
proof -
  from assms obtain j where j: "j \<in> set [i ..< Suc (length s)]" "match_at ml r s j = Some (p, e, cs)"
    unfolding exec_def by (blast dest: first_some_mem)
  from j(2) have pj: "p = j" and "(e, cs) \<in> set (m ml s r (j, []))"
    by (auto simp: match_at_def split: list.splits)
  then have "j \<le> e" using m_mono [of "(e, cs)" ml s r "(j, [])"] by simp
  then show ?thesis using j(1) pj by auto
qed

text \<open>
  \<open>s.replace(r, tmpl)\<close> for a pattern with the \<open>g\<close> flag: all matches are collected from
  the left on the original string, the search resuming at the end of the previous match
  (one further to the right after an empty match), and the text between the matches is kept.
\<close>

function replace_from :: "bool \<Rightarrow> regex \<Rightarrow> piece list \<Rightarrow> jsstring \<Rightarrow> nat \<Rightarrow> nat \<Rightarrow> jsstring" where
  "replace_from ml r tmpl s nxt lastIndex =
     (case exec ml r s lastIndex of
        None \<Rightarrow> drop nxt s
      | Some (p, e, cs) \<Rightarrow>
          take (p - nxt) (drop nxt s) @ substitution s (p, e, cs) tmpl
            @ replace_from ml r tmpl s e (if e = p then Suc e else e))"
  by pat_completeness auto
termination
proof (relation "measure (\<lambda>(ml, r, tmpl, s, nxt, lastIndex). Suc (length s) - lastIndex)")
  show "wf (measure (\<lambda>(ml, r, tmpl, s, nxt, lastIndex). Suc (length s) - lastIndex))" by simp
next
  fix ml r tmpl s nxt and lastIndex :: nat and x2 p y e cs
  assume "exec ml r s lastIndex = Some x2" "(p, y) = x2" "(e, cs) = y"
  then have "exec ml r s lastIndex = Some (p, e, cs)" by simp
  then have "lastIndex \<le> p \<and> p \<le> length s \<and> p \<le> e" by (rule exec_bounds)
  then show "((ml, r, tmpl, s, e, if e = p then Suc e else e), ml, r, tmpl, s, nxt, lastIndex)
       \<in> measure (\<lambda>(ml, r, tmpl, s, nxt, lastIndex). Suc (length s) - lastIndex)"
    by auto
qed

declare replace_from.simps [simp del]

definition replace_all :: "bool \<Rightarrow> regex \<Rightarrow> piece list \<Rightarrow> jsstring \<Rightarrow> jsstring" where
  "replace_all ml r tmpl s = replace_from ml r tmpl s 0 0"

section \<open>generate-preview.js\<close>

text \<open>Number to string conversion of a non-negative integer, as in a template literal.\<close>

function decimal :: "nat \<Rightarrow> jsstring" where
  "decimal n = (if n < 10 then [of_nat (48 + n)] else decimal (n div 10) @ [of_nat (48 + n mod 10)])"
  by pat_completeness auto
termination
  by (relation "measure id") auto

declare decimal.simps [simp del]

definition dq :: jsstring where
  "dq = [0x22]"

text \<open>\<open>slide.split('\n').filter(l => l.trim()).length\<close>, the line count of all three scripts.\<close>

definition content_lines :: "jsstring \<Rightarrow> nat" where
  "content_lines slide = length (filter (\<lambda>l. trim l \<noteq> []) (split slide (js ''\<newline>'')))"

text \<open>
  The patterns of the conversion, in the order of the source:
  \<^verbatim>\<open>/^---[\s\S]*?---\n/\<close>,
  \<^verbatim>\<open>/<Tweet id="(\d+)" \/>/g\<close>,
  \<^verbatim>\<open>/<img src="([^"]+)"[^>]*>/g\<close>,
  \<^verbatim>\<open>/^### (.+)$/gm\<close>, \<^verbatim>\<open>/^## (.+)$/gm\<close>, \<^verbatim>\<open>/^# (.+)$/gm\<close>,
  \<^verbatim>\<open>/\*\*(.+?)\*\*/g\<close>, \<^verbatim>\<open>/\*(.+?)\*/g\<close>,
  \<^verbatim>\<open>/^- (.+)$/gm\<close>,
  \<^verbatim>\<open>/(<li>.*<\/li>\n?)+/g\<close>,
  \<^verbatim>\<open>/```(\w+)?\n([\s\S]*?)```/g\<close>,
  \<^verbatim>\<open>/`([^`]+)`/g\<close>,
  \<^verbatim>\<open>/\[([^\]]+)\]\(([^)]+)\)/g\<close>,
  \<^verbatim>\<open>/\n\n/g\<close>, \<^verbatim>\<open>/^/\<close> and \<^verbatim>\<open>/$/\<close>.
\<close>

definition any_char :: regex where
  "any_char = Cls False [CSpace, CNonSpace]"

definition frontmatter_rx :: regex where
  "frontmatter_rx = seqs [Bol, lit (js ''---''), Star False any_char, lit (js ''---\<newline>'')]"

definition tweet_rx :: regex where
  "tweet_rx = seqs [lit (js ''<Tweet id='' @ dq), Grp 1 (Plus True (Cls False [CDigit])),
                    lit (dq @ js '' />'')]"

definition img_rx :: regex where
  "img_rx = seqs [lit (js ''<img src='' @ dq), Grp 1 (Plus True (Cls True [CChar 0x22])), Chr 0x22,
                  Star True (Cls True [CChar 0x3E]), Chr 0x3E]"

definition heading_rx :: "nat \<Rightarrow> regex" where
  "heading_rx level = seqs [Bol, lit (replicate level 0x23 @ js '' ''), Grp 1 (Plus True Dot), Eol]"

definition strong_rx :: regex where
  "strong_rx = seqs [lit (js ''**''), Grp 1 (Plus False Dot), lit (js ''**'')]"

definition em_rx :: regex where
  "em_rx = seqs [lit (js ''*''), Grp 1 (Plus False Dot), lit (js ''*'')]"

definition item_rx :: regex where
  "item_rx = seqs [Bol, lit (js ''- ''), Grp 1 (Plus True Dot), Eol]"

definition list_rx :: regex where
  "list_rx = Plus True (Grp 1 (seqs [lit (js ''<li>''), Star True Dot, lit (js ''</li>''), Opt (Chr 0x0A)]))"

definition fence_rx :: regex where
  "fence_rx = seqs [lit (js ''```''), Opt (Grp 1 (Plus True (Cls False [CWord]))), Chr 0x0A,
                    Grp 2 (Star False any_char), lit (js ''```'')]"

definition code_rx :: regex where
  "code_rx = seqs [Chr 0x60, Grp 1 (Plus True (Cls True [CChar 0x60])), Chr 0x60]"

definition link_rx :: regex where
  "link_rx = seqs [Chr 0x5B, Grp 1 (Plus True (Cls True [CChar 0x5D])), Chr 0x5D, Chr 0x28,
                   Grp 2 (Plus True (Cls True [CChar 0x29])), Chr 0x29]"

definition blank_rx :: regex where
  "blank_rx = lit (js ''\<newline>\<newline>'')"

text \<open>The steps of the conversion of one slide; \<open>content\<close> is the variable of the source.\<close>

definition strip_frontmatter :: "jsstring \<Rightarrow> jsstring" where
  "strip_frontmatter = replace_first False frontmatter_rx []"

definition tweets :: "jsstring \<Rightarrow> jsstring" where
  "tweets = replace_all False tweet_rx
     [Txt (js ''<div class='' @ dq @ js ''tweet'' @ dq @ js ''>'' @ [0xD83D, 0xDCF1] @ js '' Tweet: ''),
      Ref 1, Txt (js ''</div>'')]"

definition images :: "jsstring \<Rightarrow> jsstring" where
  "images = replace_all False img_rx
     [Txt (js ''<div style='' @ dq @ js ''text-align: center;'' @ dq @ js ''><em>''
           @ [0xD83D, 0xDDBC, 0xFE0F] @ js '' Image: ''),
      Ref 1, Txt (js ''</em></div>'')]"

definition wrap :: "string \<Rightarrow> piece list" where
  "wrap tag = [Txt (js ''<'' @ js tag @ js ''>''), Ref 1, Txt (js ''</'' @ js tag @ js ''>'')]"

definition markdown :: "jsstring \<Rightarrow> jsstring" where
  "markdown =
     replace_first False Eol [Txt (js ''</p>'')]
     \<circ> replace_first False Bol [Txt (js ''<p>'')]
     \<circ> replace_all False blank_rx [Txt (js ''</p><p>'')]
     \<circ> replace_all False link_rx [Txt (js ''<a href='' @ dq), Ref 2, Txt (dq @ js ''>''), Ref 1, Txt (js ''</a>'')]
     \<circ> replace_all False code_rx (wrap ''code'')
     \<circ> replace_all False fence_rx [Txt (js ''<pre><code>''), Ref 2, Txt (js ''</code></pre>'')]
     \<circ> replace_all False list_rx [Txt (js ''<ul>''), Whole, Txt (js ''</ul>'')]
     \<circ> replace_all True item_rx (wrap ''li'')
     \<circ> replace_all False em_rx (wrap ''em'')
     \<circ> replace_all False strong_rx (wrap ''strong'')
     \<circ> replace_all True (heading_rx 1) (wrap ''h1'')
     \<circ> replace_all True (heading_rx 2) (wrap ''h2'')
     \<circ> replace_all True (heading_rx 3) (wrap ''h3'')"

definition content :: "jsstring \<Rightarrow> jsstring" where
  "content slide = markdown (images (tweets (strip_frontmatter slide)))"

text \<open>
  The patterns of the conversion that may or may not match, with their \<open>m\<close> flag; the two
  last steps of the conversion, \<^verbatim>\<open>/^/\<close> and \<^verbatim>\<open>/$/\<close>, match every text.
\<close>

definition rules :: "(bool \<times> regex) list" where
  "rules = [(False, frontmatter_rx), (False, tweet_rx), (False, img_rx),
            (True, heading_rx 3), (True, heading_rx 2), (True, heading_rx 1),
            (False, strong_rx), (False, em_rx), (True, item_rx), (False, list_rx),
            (False, fence_rx), (False, code_rx), (False, link_rx), (False, blank_rx)]"

definition no_rule_matches :: "jsstring \<Rightarrow> bool" where
  "no_rule_matches s \<longleftrightarrow> (\<forall>(ml, r)\<in>set rules. exec ml r s 0 = None)"






section \<open>verify-slides.js\<close>

text \<open>
  The only operation of the script that can raise is the read of an element of the result
  of \<open>slide.match\<close>: the result is \<open>null\<close> when the pattern does not match, and reading
  \<open>null[1]\<close> throws a \<open>TypeError\<close>.  The pattern of the title is \<^verbatim>\<open>/^# (.+)$/m\<close>.
\<close>

datatype js_error = TypeError

definition title_rx :: regex where
  "title_rx = seqs [Bol, lit (js ''# ''), Grp 1 (Plus True Dot), Eol]"

definition js_match :: "jsstring \<Rightarrow> bool \<Rightarrow> regex \<Rightarrow> (nat \<times> nat \<times> captures) option" where
  "js_match s ml r = exec ml r s 0"

fun element :: "jsstring \<Rightarrow> (nat \<times> nat \<times> captures) option \<Rightarrow> nat \<Rightarrow> js_error + jsstring" where
  "element s None k = Inl TypeError"
| "element s (Some (p, e, cs)) k = Inr (if k = 0 then take (e - p) (drop p s) else capture s cs k)"

definition title :: "jsstring \<Rightarrow> js_error + jsstring" where
  "title slide =
     (let titleMatch = js_match slide True title_rx
      in if titleMatch \<noteq> None then element slide titleMatch 1 else Inr (js ''No title''))"

text \<open>The array \<open>issues\<close>, filled by three \<open>push\<close> calls in this order.\<close>

definition issues :: "jsstring \<Rightarrow> jsstring list" where
  "issues slide =
     (if 25 < content_lines slide then [[0x26A0, 0xFE0F] @ js ''  May be too long''] else [])
     @ (if js_includes slide (js ''undefined'') then [[0x274C] @ js '' Contains undefined''] else [])
     @ (if js_includes slide (js ''[object'') then [[0x274C] @ js '' Contains [object''] else [])"

text \<open>
  The lines written by \<open>console.log\<close> for one slide, one list element for each call;
  \<open>tick\<close> is a line starting with two spaces and a check mark.
\<close>

definition tick :: "string \<Rightarrow> jsstring" where
  "tick msg = js ''  '' @ [0x2713] @ js '' '' @ js msg"

definition report :: "nat \<Rightarrow> jsstring \<Rightarrow> jsstring \<Rightarrow> jsstring list" where
  "report index slide ttl =
     [js ''Slide '' @ decimal (index + 1) @ js '': '' @ ttl,
      js ''  Lines: '' @ decimal (content_lines slide)]
     @ (if 0 < length (issues slide) then [js ''  Issues: '' @ join (issues slide) (js '', '')] else [])
     @ (if index = 0 then [tick ''Title slide''] else [])
     @ (if js_includes slide (js ''PolicyEngine'') then [tick ''Contains PolicyEngine''] else [])
     @ (if js_includes slide (js ''```'') then [tick ''Contains code block''] else [])
     @ (if js_includes slide (js ''ETI'') then [tick ''Mentions ETI''] else [])
     @ (if js_includes slide (js ''TDD'') \<or> js_includes slide (js ''Test-Driven'')
        then [tick ''Mentions TDD''] else [])
     @ [[]]"

definition verify_slide :: "nat \<Rightarrow> jsstring \<Rightarrow> js_error + jsstring list" where
  "verify_slide index slide =
     (case title slide of Inl err \<Rightarrow> Inl err | Inr ttl \<Rightarrow> Inr (report index slide ttl))"

text \<open>\<open>slideArray.forEach\<close>: an exception in the callback ends the loop.\<close>

fun forEach :: "(nat \<Rightarrow> 'a \<Rightarrow> js_error + jsstring list) \<Rightarrow> nat \<Rightarrow> 'a list \<Rightarrow> js_error + jsstring list" where
  "forEach f index [] = Inr []"
| "forEach f index (x # xs) =
     (case f index x of
        Inl err \<Rightarrow> Inl err
      | Inr out \<Rightarrow> (case forEach f (Suc index) xs of Inl err \<Rightarrow> Inl err | Inr rest \<Rightarrow> Inr (out @ rest)))"

definition verify_slides :: "jsstring \<Rightarrow> js_error + jsstring list" where
  "verify_slides slides =
     (let slideArray = split slides delimiter
      in case forEach verify_slide 0 slideArray of
           Inl err \<Rightarrow> Inl err
         | Inr out \<Rightarrow> Inr ((js ''Total slides: '' @ decimal (length slideArray) @ js ''\<newline>'') # out))"

text \<open>
  A level-1 heading line starts at index \<open>i\<close> of the text: \<open>i\<close> is the start of a line
  (the start of the text, or the index after a line terminator), the line starts with
  \<open>#\<close> and a space, and some text follows on the same line.  \<open>rest_of_line s k\<close> is
  the text from index \<open>k\<close> to the end of its line, \<open>line_end s k\<close> the index of that end.
\<close>

definition heading_line_at :: "jsstring \<Rightarrow> nat \<Rightarrow> bool" where
  "heading_line_at s i \<longleftrightarrow>
     (i = 0 \<or> (i \<le> length s \<and> is_line_terminator (s ! (i - 1))))
     \<and> prefix (js ''# '') (drop i s)
     \<and> i + 2 < length s \<and> \<not> is_line_terminator (s ! (i + 2))"

definition rest_of_line :: "jsstring \<Rightarrow> nat \<Rightarrow> jsstring" where
  "rest_of_line s k = takeWhile (\<lambda>c. \<not> is_line_terminator c) (drop k s)"

definition line_end :: "jsstring \<Rightarrow> nat \<Rightarrow> nat" where
  "line_end s i = i + length (takeWhile (\<lambda>c. \<not> is_line_terminator c) (drop i s))"

section \<open>The tests of visual.test.js and slides.test.js\<close>

text \<open>
  A failed \<open>expect\<close> throws and ends its test; the outcome of a test is its first failure,
  if any.
\<close>

datatype failure = NotLessOrEqual nat nat | Unexpected jsstring | NotLess int int



text \<open>``should have consistent formatting''.\<close>

definition formatting_test :: "jsstring \<Rightarrow> failure option" where
  "formatting_test slides =
     first_some (\<lambda>w. if js_includes slides w then Some (Unexpected w) else None)
       [js ''undefined'', js ''[object'', js ''null'']"

text \<open>
  ``should follow narrative arc'': the index of the first section that contains each key
  phrase, \<open>-1\<close> when there is none, and one \<open>toBeLessThan\<close> for each pair of neighbours.
  The test of the source is \<open>follow_narrative_arc\<close>; \<open>narrative_arc\<close> takes the list of
  phrases as an argument.  The sections are split on three dashes and trimmed.
\<close>

fun findIndex :: "('a \<Rightarrow> bool) \<Rightarrow> 'a list \<Rightarrow> int" where
  "findIndex P [] = - 1"
| "findIndex P (x # xs) =
     (if P x then 0 else (let k = findIndex P xs in if k < 0 then - 1 else k + 1))"

fun expect_increasing :: "int list \<Rightarrow> failure option" where
  "expect_increasing (a # b # rest) =
     (if a < b then expect_increasing (b # rest) else Some (NotLess a b))"
| "expect_increasing rest = None"

definition narrative_arc :: "jsstring list \<Rightarrow> jsstring \<Rightarrow> failure option" where
  "narrative_arc markers slides =
     (let sections = map trim (split slides (js ''---''))
      in expect_increasing (map (\<lambda>w. findIndex (\<lambda>s. js_includes s w) sections) markers))"

definition follow_narrative_arc :: "jsstring \<Rightarrow> failure option" where
  "follow_narrative_arc =
     narrative_arc [js ''Max Ghenis'', js ''Vegas airport'', js ''Opus 4'', js ''Turn Everything'']"


section \<open>The screenshot script\<close>

text \<open>
  The loop of \<open>captureSlides\<close> over the pages 1 to 20.  The browser is the environment of
  the script: \<open>env i\<close> says whether a step of the capture of page \<open>i\<close> throws, and with which
  message.  The state records the calls made on the page, the screenshot files written and
  the lines written to the console.  A screenshot call that throws writes no file.
\<close>

datatype fault = GotoFails jsstring | WaitFails jsstring | ScreenshotFails jsstring

datatype action = Goto nat | WaitForTimeout nat | Screenshot jsstring

record browser =
  actions :: "action list"
  files :: "jsstring list"
  console :: "jsstring list"

fun message :: "fault \<Rightarrow> jsstring" where
  "message (GotoFails msg) = msg"
| "message (WaitFails msg) = msg"
| "message (ScreenshotFails msg) = msg"

text \<open>\<open>String(i).padStart(2, '0')\<close> and the path of the screenshot of page \<open>i\<close>.\<close>

definition padStart2 :: "jsstring \<Rightarrow> jsstring" where
  "padStart2 s = replicate (2 - length s) 0x30 @ s"

definition screenshotPath :: "jsstring \<Rightarrow> nat \<Rightarrow> jsstring" where
  "screenshotPath dir i = dir @ js ''/slide-'' @ padStart2 (decimal i) @ js ''.png''"

text \<open>The calls made in the \<open>try\<close> block for page \<open>i\<close> up to and including the one that throws.\<close>

fun attempted :: "jsstring \<Rightarrow> nat \<Rightarrow> fault option \<Rightarrow> action list" where
  "attempted dir i (Some (GotoFails msg)) = [Goto i]"
| "attempted dir i (Some (WaitFails msg)) = [Goto i, WaitForTimeout 1000]"
| "attempted dir i other = [Goto i, WaitForTimeout 1000, Screenshot (screenshotPath dir i)]"

text \<open>
  One round of the loop: the new state, and whether the loop goes on (\<open>False\<close> is the
  \<open>break\<close> of the \<open>catch\<close> block).
\<close>

definition capture_page :: "(nat \<Rightarrow> fault option) \<Rightarrow> jsstring \<Rightarrow> nat \<Rightarrow> browser \<Rightarrow> browser \<times> bool" where
  "capture_page env dir i st =
     (case env i of
        None \<Rightarrow>
          (st\<lparr>actions := actions st @ attempted dir i None,
              files := files st @ [screenshotPath dir i],
              console := console st @ [js ''Captured slide '' @ decimal i]\<rparr>, True)
      | Some error \<Rightarrow>
          (st\<lparr>actions := actions st @ attempted dir i (Some error),
              console := console st
                @ [js ''Could not capture slide '' @ decimal i @ js '': '' @ message error]\<rparr>, False))"

function capture_from :: "(nat \<Rightarrow> fault option) \<Rightarrow> jsstring \<Rightarrow> nat \<Rightarrow> browser \<Rightarrow> browser" where
  "capture_from env dir i st =
     (if i \<le> 20
      then (case capture_page env dir i st of
              (st', True) \<Rightarrow> capture_from env dir (Suc i) st'
            | (st', False) \<Rightarrow> st')
      else st)"
  by pat_completeness auto
termination
  by (relation "measure (\<lambda>(env, dir, i, st). 21 - i)") auto

declare capture_from.simps [simp del]

definition capture_loop :: "(nat \<Rightarrow> fault option) \<Rightarrow> jsstring \<Rightarrow> browser \<Rightarrow> browser" where
  "capture_loop env dir st = capture_from env dir 1 st"

section \<open>Facts about splitting and joining\<close>

lemma split_at_not_Nil: "split_at sep s \<noteq> []"
  by (induction sep s rule: split_at.induct) (auto simp: neq_Nil_conv)

lemma join_cons_first: "xs \<noteq> [] \<Longrightarrow> join (cons_first c xs) sep = c # join xs sep"
proof (cases xs)
  case Nil
  assume "xs \<noteq> []"
  then show ?thesis using Nil by simp
next
  case (Cons x ys)
  then show ?thesis by (cases ys) simp_all
qed

lemma join_split_at: "join (split_at sep s) sep = s"
proof (induction sep s rule: split_at.induct)
  case (1 sep)
  show ?case by simp
next
  case (2 sep c s)
  show ?case
  proof (cases "sep \<noteq> [] \<and> prefix sep (c # s)")
    case True
    then obtain r where r: "c # s = sep @ r" by (auto simp: prefix_def)
    then have d: "drop (length sep) (c # s) = r" by simp
    obtain seg segs where sp: "split_at sep r = seg # segs"
      using split_at_not_Nil [of sep r] by (cases "split_at sep r") auto
    have "join (split_at sep r) sep = r" using 2(1) [OF True] d by simp
    then have "join ([] # split_at sep r) sep = sep @ r" using sp by simp
    moreover have "split_at sep (c # s) = [] # split_at sep r"
      using True d by simp
    ultimately show ?thesis using r by simp
  next
    case False
    then have "join (split_at sep s) sep = s" using 2(2) by simp
    moreover have "split_at sep (c # s) = cons_first c (split_at sep s)"
      using False by auto
    ultimately show ?thesis by (simp add: join_cons_first split_at_not_Nil)
  qed
qed

lemma join_split: "join (split s sep) sep = s"
proof (cases "sep = []")
  case True
  have "join (map (\<lambda>c. [c]) s) [] = s"
    by (induction s rule: induct_list012) auto
  then show ?thesis using True by (simp add: split_def)
next
  case False
  then show ?thesis by (simp add: split_def join_split_at)
qed

lemma prefix_js_includes: "prefix w s \<Longrightarrow> js_includes s w"
  by (cases s) auto

lemma js_includes_iff: "js_includes s w \<longleftrightarrow> (\<exists>a b. s = a @ w @ b)"
proof (induction s)
  case Nil
  then show ?case by auto
next
  case (Cons c s)
  show ?case
  proof
    assume "js_includes (c # s) w"
    then consider "prefix w (c # s)" | "js_includes s w" by auto
    then show "\<exists>a b. c # s = a @ w @ b"
    proof cases
      case 1
      then obtain b where "c # s = w @ b" by (auto simp: prefix_def)
      then have "c # s = [] @ w @ b" by simp
      then show ?thesis by blast
    next
      case 2
      then obtain a b where "s = a @ w @ b" using Cons.IH by auto
      then have "c # s = (c # a) @ w @ b" by simp
      then show ?thesis by blast
    qed
  next
    assume "\<exists>a b. c # s = a @ w @ b"
    then obtain a b where ab: "c # s = a @ w @ b" by blast
    show "js_includes (c # s) w"
    proof (cases a)
      case Nil
      then have "prefix w (c # s)" using ab by (simp add: prefix_def)
      then show ?thesis by simp
    next
      case (Cons x a')
      then have "s = a' @ w @ b" using ab by simp
      then have "js_includes s w" using Cons.IH by blast
      then show ?thesis by simp
    qed
  qed
qed

lemma split_at_first_prefix: "split_at sep s = seg # segs \<Longrightarrow> prefix seg s"
proof (induction sep s arbitrary: seg segs rule: split_at.induct)
  case (1 sep)
  then show ?case by simp
next
  case (2 sep c s)
  show ?case
  proof (cases "sep \<noteq> [] \<and> prefix sep (c # s)")
    case True
    then have "split_at sep (c # s) = [] # split_at sep (drop (length sep) (c # s))"
      by simp
    then have "seg = []" using 2(3) by simp
    then show ?thesis by simp
  next
    case False
    obtain g gs where g: "split_at sep s = g # gs"
      using split_at_not_Nil [of sep s] by (cases "split_at sep s") auto
    then have pg: "prefix g s" using 2(2) [OF False] by blast
    have "split_at sep (c # s) = cons_first c (split_at sep s)"
      using False by auto
    then have "seg = c # g" using 2(3) g by simp
    then show ?thesis using pg by simp
  qed
qed

lemma split_at_segment_free:
  "sep \<noteq> [] \<Longrightarrow> seg \<in> set (split_at sep s) \<Longrightarrow> \<not> js_includes seg sep"
proof (induction sep s arbitrary: seg rule: split_at.induct)
  case (1 sep)
  then show ?case by simp
next
  case (2 sep c s)
  show ?case
  proof (cases "sep \<noteq> [] \<and> prefix sep (c # s)")
    case True
    then have "split_at sep (c # s) = [] # split_at sep (drop (length sep) (c # s))"
      by simp
    then have "seg = [] \<or> seg \<in> set (split_at sep (drop (length sep) (c # s)))"
      using 2(4) by simp
    then show ?thesis
    proof
      assume "seg = []"
      then show ?thesis using 2(3) by simp
    next
      assume "seg \<in> set (split_at sep (drop (length sep) (c # s)))"
      then show ?thesis using 2(1) [OF True 2(3)] by blast
    qed
  next
    case False
    then have np: "\<not> prefix sep (c # s)" using 2(3) by simp
    obtain g gs where g: "split_at sep s = g # gs"
      using split_at_not_Nil [of sep s] by (cases "split_at sep s") auto
    then have pg: "prefix g s" by (rule split_at_first_prefix)
    have "split_at sep (c # s) = cons_first c (split_at sep s)"
      using False by auto
    then have "seg = c # g \<or> seg \<in> set gs" using 2(4) g by simp
    then show ?thesis
    proof
      assume s: "seg = c # g"
      have "\<not> prefix sep (c # g)"
      proof
        assume "prefix sep (c # g)"
        moreover have "prefix (c # g) (c # s)" using pg by simp
        ultimately have "prefix sep (c # s)" by (rule prefix_order.trans)
        then show False using np by simp
      qed
      moreover have "\<not> js_includes g sep" using 2(2) [OF False 2(3)] g by simp
      ultimately show ?thesis using s by simp
    next
      assume "seg \<in> set gs"
      then show ?thesis using 2(2) [OF False 2(3)] g by simp
    qed
  qed
qed

lemma prefix_take: "prefix w x \<Longrightarrow> take (length w) x = w"
  by (auto simp: prefix_def)

lemma no_straddle:
  assumes "unbordered sep" "\<not> js_includes a sep" "a \<noteq> []"
  shows "\<not> prefix sep (a @ sep @ b)"
proof
  assume p: "prefix sep (a @ sep @ b)"
  show False
  proof (cases "length sep \<le> length a")
    case True
    have "take (length sep) (a @ sep @ b) = sep" using p by (rule prefix_take)
    then have "take (length sep) a = sep" using True by simp
    then have "prefix sep a" using take_is_prefix [of "length sep" a] by simp
    then show False using assms(2) prefix_js_includes by blast
  next
    case False
    define k where "k = length sep - length a"
    have "0 < length a" using assms(3) by simp
    then have k: "0 < k" "k < length sep" using False unfolding k_def by arith+
    have "take (length sep) (a @ sep @ b) = sep" using p by (rule prefix_take)
    then have eq: "a @ take k sep = sep" using False by (simp add: k_def)
    have "drop (length sep - k) sep = drop (length a) (a @ take k sep)"
      using eq False by (simp add: k_def)
    then have "drop (length sep - k) sep = take k sep" by simp
    then show False using assms(1) k by (auto simp: unbordered_def)
  qed
qed

lemma split_at_free: "\<not> js_includes a sep \<Longrightarrow> split_at sep a = [a]"
  by (induction a) auto

lemma split_at_append:
  assumes "unbordered sep" "sep \<noteq> []"
  shows "\<not> js_includes a sep \<Longrightarrow> split_at sep (a @ sep @ b) = a # split_at sep b"
proof (induction a)
  case Nil
  obtain c r where cr: "sep = c # r" using assms(2) by (cases sep) auto
  then show ?case by simp
next
  case (Cons c a)
  have "\<not> prefix sep ((c # a) @ sep @ b)"
    using no_straddle [OF assms(1) Cons.prems] by simp
  moreover have "\<not> js_includes a sep" using Cons.prems by simp
  ultimately show ?case using Cons.IH by simp
qed

lemma split_at_join:
  assumes "unbordered sep" "sep \<noteq> []"
  shows "segs \<noteq> [] \<Longrightarrow> \<forall>g\<in>set segs. \<not> js_includes g sep \<Longrightarrow> split_at sep (join segs sep) = segs"
proof (induction segs)
  case Nil
  then show ?case by simp
next
  case (Cons x segs)
  show ?case
  proof (cases segs)
    case Nil
    then show ?thesis using Cons.prems by (simp add: split_at_free)
  next
    case (Cons y ys)
    have x: "\<not> js_includes x sep" using Cons.prems(2) by simp
    have "split_at sep (join segs sep) = segs"
      using Cons.IH Cons.prems(2) Cons by simp
    moreover have "split_at sep (x @ sep @ join segs sep) = x # split_at sep (join segs sep)"
      using x by (rule split_at_append [OF assms])
    moreover have "join (x # segs) sep = x @ sep @ join segs sep" using Cons by simp
    ultimately show ?thesis by simp
  qed
qed

lemma unbordered_delimiter: "unbordered delimiter"
  unfolding unbordered_def
proof (intro allI impI)
  fix k :: nat
  assume "0 < k \<and> k < length delimiter"
  then have "k = 1 \<or> k = 2 \<or> k = 3" by (simp add: delimiter_def js_def) arith
  then show "take k delimiter \<noteq> drop (length delimiter - k) delimiter"
    by (elim disjE) (simp_all add: delimiter_def js_def)
qed

lemma delimiter_not_Nil: "delimiter \<noteq> []"
  by (simp add: delimiter_def js_def)

section \<open>Facts about the matcher\<close>

lemma lit_Nil: "lit [] = Eps"
  by (simp add: lit_def seqs_def)

lemma lit_Cons: "lit (c # w) = Seq (Chr c) (lit w)"
  by (simp add: lit_def seqs_def)

lemma seqs_Cons: "seqs (r # rs) = Seq r (seqs rs)"
  by (simp add: seqs_def)

lemma seqs_Nil: "seqs [] = Eps"
  by (simp add: seqs_def)

lemma prefix_drop_Cons:
  "prefix (c # w) (drop i s) \<longleftrightarrow> i < length s \<and> s ! i = c \<and> prefix w (drop (Suc i) s)"
proof (cases "i < length s")
  case True
  then have "drop i s = s ! i # drop (Suc i) s" by (simp add: Cons_nth_drop_Suc)
  then show ?thesis using True by auto
next
  case False
  then show ?thesis by simp
qed

lemma m_lit:
  "m ml s (lit w) x = (if prefix w (drop (fst x) s) then [(fst x + length w, snd x)] else [])"
proof (induction w arbitrary: x)
  case Nil
  then show ?case by (simp add: lit_Nil)
next
  case (Cons c w)
  show ?case
    by (simp add: lit_Cons Cons.IH prefix_drop_Cons)
qed

lemma prefix_drop_includes: "prefix w (drop i s) \<Longrightarrow> js_includes s w"
proof -
  assume "prefix w (drop i s)"
  then obtain b where "drop i s = w @ b" by (auto simp: prefix_def)
  then have "s = take i s @ w @ b" by (metis append_take_drop_id)
  then show ?thesis unfolding js_includes_iff by blast
qed

lemma first_some_None: "(\<forall>x\<in>set xs. f x = None) \<Longrightarrow> first_some f xs = None"
  by (induction xs) auto

lemma first_some_None_iff: "first_some f xs = None \<longleftrightarrow> (\<forall>x\<in>set xs. f x = None)"
  by (induction xs) (auto split: option.splits)

lemma m_Seq_mem: "y \<in> set (m ml s (Seq a b) x) \<longleftrightarrow> (\<exists>z\<in>set (m ml s a x). y \<in> set (m ml s b z))"
  by auto

lemma frontmatter_needs_delimiter:
  assumes "y \<in> set (m ml s frontmatter_rx x)"
  shows "js_includes s delimiter"
proof -
  from assms obtain z1 where "y \<in> set (m ml s (seqs [lit (js ''---''), Star False any_char, lit (js ''---\<newline>'')]) z1)"
    unfolding frontmatter_rx_def seqs_Cons [of Bol] m_Seq_mem by blast
  then obtain z2 where "y \<in> set (m ml s (seqs [Star False any_char, lit (js ''---\<newline>'')]) z2)"
    unfolding seqs_Cons [of "lit (js ''---'')"] m_Seq_mem by blast
  then obtain z3 where "y \<in> set (m ml s (seqs [lit (js ''---\<newline>'')]) z3)"
    unfolding seqs_Cons [of "Star False any_char"] m_Seq_mem by blast
  then obtain z4 where "z4 \<in> set (m ml s (lit (js ''---\<newline>'')) z3)"
    unfolding seqs_Cons [of "lit (js ''---\<newline>'')"] m_Seq_mem by blast
  then have "prefix (js ''---\<newline>'') (drop (fst z3) s)"
    by (simp add: m_lit split: if_splits)
  then show ?thesis unfolding delimiter_def by (rule prefix_drop_includes)
qed

lemma strip_frontmatter_id:
  assumes "\<not> js_includes s delimiter"
  shows "strip_frontmatter s = s"
proof -
  have "match_at False frontmatter_rx s i = None" for i
    using frontmatter_needs_delimiter [of _ False s "(i, [])"] assms
    by (cases "m False s frontmatter_rx (i, [])") (auto simp: match_at_def)
  then have "exec False frontmatter_rx s 0 = None"
    by (simp add: exec_def first_some_None)
  then show ?thesis by (simp add: strip_frontmatter_def replace_first_def)
qed

lemma slide_no_delimiter:
  assumes "slide \<in> set (split T delimiter)"
  shows "\<not> js_includes slide delimiter"
  using assms split_at_segment_free [OF delimiter_not_Nil, of slide T]
  by (simp add: split_def delimiter_not_Nil)

lemma clear_no_groups: "groups r = [] \<Longrightarrow> clear r y = y"
  by (simp add: clear_def)

lemma repeat_single:
  assumes step: "\<And>y. step y = (if fst y < length s \<and> P (s ! fst y) then [(Suc (fst y), snd y)] else [])"
  shows "repeat g (length s) step (i, cs) =
           map (\<lambda>j. (j, cs))
             (if g then rev [i ..< Suc (i + length (takeWhile P (drop i s)))]
              else [i ..< Suc (i + length (takeWhile P (drop i s)))])"
proof (induction "length s - i" arbitrary: i)
  case 0
  then have "drop i s = []" and "\<not> i < length s" by simp_all
  then show ?case by (subst repeat.simps) (simp add: step)
next
  case (Suc d)
  then have lt: "i < length s" by simp
  then have dr: "drop i s = s ! i # drop (Suc i) s" by (simp add: Cons_nth_drop_Suc)
  show ?case
  proof (cases "P (s ! i)")
    case True
    have d: "d = length s - Suc i" using Suc(2) by simp
    define t where "t = Suc i + length (takeWhile P (drop (Suc i) s))"
    have IH: "repeat g (length s) step (Suc i, cs)
              = map (\<lambda>j. (j, cs)) (if g then rev [Suc i ..< Suc t] else [Suc i ..< Suc t])"
      using Suc(1) [OF d] unfolding t_def .
    have top: "i + length (takeWhile P (drop i s)) = t"
      using True dr by (simp add: t_def)
    have "i < Suc t" by (simp add: t_def)
    then have up: "[i ..< Suc t] = i # [Suc i ..< Suc t]" by (rule upt_conv_Cons)
    have un: "repeat g (length s) step (i, cs)
              = (if g then repeat g (length s) step (Suc i, cs) @ [(i, cs)]
                 else (i, cs) # repeat g (length s) step (Suc i, cs))"
    proof -
      have le: "Suc i \<le> length s" using lt by simp
      show ?thesis by (subst repeat.simps) (simp add: step lt le True)
    qed
    show ?thesis unfolding top un IH up by simp
  next
    case False
    then show ?thesis using dr by (subst repeat.simps) (simp add: step lt)
  qed
qed

lemma line_end_stop:
  assumes "i \<le> length s"
  shows "line_end s i = length s \<or> (line_end s i < length s \<and> is_line_terminator (s ! line_end s i))"
proof -
  let ?P = "\<lambda>c. \<not> is_line_terminator c"
  let ?k = "length (takeWhile ?P (drop i s))"
  have le: "?k \<le> length (drop i s)" by (rule length_takeWhile_le)
  show ?thesis
  proof (cases "?k < length (drop i s)")
    case True
    then have "\<not> ?P (drop i s ! ?k)" by (rule nth_length_takeWhile)
    moreover have "drop i s ! ?k = s ! (i + ?k)" using True assms by simp
    moreover have "i + ?k < length s" using True assms by simp
    ultimately show ?thesis by (simp add: line_end_def)
  next
    case False
    then have "?k = length (drop i s)" using le by simp
    then show ?thesis using assms by (simp add: line_end_def)
  qed
qed

lemma m_plus_dot:
  "m ml s (Plus True Dot) (i, cs) =
     (if i < length s \<and> \<not> is_line_terminator (s ! i)
      then map (\<lambda>j. (j, cs)) (rev [Suc i ..< Suc (line_end s i)]) else [])"
proof (cases "i < length s \<and> \<not> is_line_terminator (s ! i)")
  case True
  then have dr: "drop i s = s ! i # drop (Suc i) s" by (simp add: Cons_nth_drop_Suc)
  have top: "Suc (i + length (takeWhile (\<lambda>c. \<not> is_line_terminator c) (drop (Suc i) s))) = line_end s i"
    using True dr by (simp add: line_end_def)
  have "repeat True (length s) (\<lambda>y. m ml s Dot (clear Dot y)) (Suc i, cs)
        = map (\<lambda>j. (j, cs)) (rev [Suc i ..< Suc (line_end s i)])"
    using repeat_single [of "\<lambda>y. m ml s Dot (clear Dot y)" s "\<lambda>c. \<not> is_line_terminator c" True "Suc i" cs]
    by (simp add: clear_no_groups top del: upt_Suc)
  then show ?thesis using True by (simp add: clear_no_groups del: upt_Suc)
next
  case False
  then show ?thesis by (auto simp: clear_no_groups)
qed

lemma title_match_at:
  "match_at True title_rx s i =
     (if heading_line_at s i
      then Some (i, line_end s (i + 2), [(1, i + 2, line_end s (i + 2))]) else None)"
proof (cases "heading_line_at s i")
  case False
  then have "m True s title_rx (i, []) = []"
    unfolding title_rx_def seqs_Cons seqs_Nil heading_line_at_def
    by (auto simp: m_lit m_plus_dot js_def simp del: upt_Suc m.simps(10))
  then show ?thesis using False by (simp add: match_at_def)
next
  case True
  define k where "k = i + 2"
  define e where "e = line_end s k"
  from True have h: "i = 0 \<or> (i \<le> length s \<and> is_line_terminator (s ! (i - 1)))"
    "prefix (js ''# '') (drop i s)" "k < length s" "\<not> is_line_terminator (s ! k)"
    by (auto simp: heading_line_at_def k_def)
  have bol: "m True s Bol (i, []) = [(i, [])]" using h(1) by auto
  have hash: "m True s (lit (js ''# '')) (i, []) = [(k, [])]"
    using h(2) by (simp add: m_lit k_def) (simp add: js_def)
  have "k < Suc e" by (simp add: e_def line_end_def)
  moreover have "Suc k \<le> e" using h(3,4)
    by (simp add: e_def line_end_def Cons_nth_drop_Suc [symmetric])
  ultimately have "[Suc k ..< Suc e] = [Suc k ..< e] @ [e]"
    by (metis upt_Suc_append)
  then have rv: "rev [Suc k ..< Suc e] = e # rev [Suc k ..< e]" by simp
  have plus: "m True s (Plus True Dot) (k, []) = map (\<lambda>j. (j, [])) (e # rev [Suc k ..< e])"
    using h(3,4) by (simp only: m_plus_dot e_def [symmetric] rv if_True simp_thms)
  have eol: "m True s Eol (e, c) = [(e, c)]" for c
    using line_end_stop [of k s] h(3) by (auto simp: e_def)
  have "m True s title_rx (i, []) =
          concat (map (m True s (Seq Eol Eps))
            (map (\<lambda>y. (fst y, (1, k, fst y) # snd y)) (m True s (Plus True Dot) (k, []))))"
    unfolding title_rx_def seqs_Cons seqs_Nil
    by (simp add: bol hash del: m.simps(5,10))
  then have "\<exists>rest. m True s title_rx (i, []) = (e, [(1, k, e)]) # rest"
    unfolding plus by (simp add: eol del: m.simps(6))
  then show ?thesis using True by (auto simp: match_at_def k_def e_def)
qed

lemma first_some_append:
  "first_some f (xs @ ys) = (case first_some f xs of None \<Rightarrow> first_some f ys | Some y \<Rightarrow> Some y)"
  by (induction xs) (auto split: option.splits)

lemma first_some_upt_least:
  assumes "a \<le> i" "i < b" "f i = Some y" "\<forall>j. a \<le> j \<and> j < i \<longrightarrow> f j = None"
  shows "first_some f [a ..< b] = Some y"
proof -
  have "[a ..< b] = [a ..< i] @ i # [Suc i ..< b]"
    using assms(1,2) by (metis le_add_diff_inverse less_imp_le_nat upt_add_eq_append upt_conv_Cons)
  moreover have "first_some f [a ..< i] = None"
    using assms(4) by (simp add: first_some_None)
  ultimately show ?thesis using assms(3) by (simp add: first_some_append)
qed

lemma title_fallback:
  assumes "\<forall>i<length slide. \<not> heading_line_at slide i"
  shows "title slide = Inr (js ''No title'')"
proof -
  have "\<not> heading_line_at slide i" for i
    using assms by (cases "i < length slide") (auto simp: heading_line_at_def)
  then have "exec True title_rx slide 0 = None"
    by (simp add: exec_def first_some_None title_match_at del: upt_Suc)
  then show ?thesis by (simp add: title_def js_match_def)
qed

lemma title_first_heading:
  assumes "heading_line_at slide i" "\<forall>j<i. \<not> heading_line_at slide j"
  shows "title slide = Inr (rest_of_line slide (i + 2))"
proof -
  let ?e = "line_end slide (i + 2)"
  have "i < Suc (length slide)" using assms(1) by (simp add: heading_line_at_def)
  then have "exec True title_rx slide 0 = Some (i, ?e, [(1, i + 2, ?e)])"
    unfolding exec_def using assms
    by (intro first_some_upt_least [of 0 i]) (simp_all add: title_match_at)
  moreover have "capture slide [(1, i + 2, ?e)] 1 = rest_of_line slide (i + 2)"
    by (simp add: capture_def line_end_def rest_of_line_def takeWhile_eq_take [symmetric])
  ultimately show ?thesis by (simp add: title_def js_match_def)
qed

lemma m_any_char:
  "m ml s any_char y = (if fst y < length s then [(Suc (fst y), snd y)] else [])"
  by (simp add: any_char_def)

lemma m_lazy_any:
  assumes "i \<le> length s"
  shows "m ml s (Star False any_char) (i, cs) = map (\<lambda>j. (j, cs)) [i ..< Suc (length s)]"
proof -
  have g: "groups any_char = []" by (simp add: any_char_def)
  have "repeat False (length s) (\<lambda>y. m ml s any_char (clear any_char y)) (i, cs)
        = map (\<lambda>j. (j, cs)) [i ..< Suc (i + length (takeWhile (\<lambda>c. True) (drop i s)))]"
    using repeat_single [of "\<lambda>y. m ml s any_char (clear any_char y)" s "\<lambda>c. True" False i cs]
    by (simp add: clear_no_groups [OF g] m_any_char del: upt_Suc)
  moreover have "i + length (takeWhile (\<lambda>c. True) (drop i s)) = length s"
  proof -
    have tw: "takeWhile (\<lambda>c. True) (drop i s) = drop i s"
      by (simp add: takeWhile_eq_all_conv)
    show ?thesis unfolding tw using assms by simp
  qed
  ultimately show ?thesis by (simp del: upt_Suc)
qed

lemma concat_map_first:
  assumes "\<forall>x\<in>set xs. f x = []"
  shows "concat (map f (xs @ y # ys)) = f y @ concat (map f ys)"
  using assms by (induction xs) auto

lemma frontmatter_match:
  fixes s :: jsstring
  assumes s: "s = js ''---'' @ meta @ delimiter @ rest"
    and first: "\<forall>j. 3 \<le> j \<and> j < 3 + length meta \<longrightarrow> \<not> prefix delimiter (drop j s)"
  shows "\<exists>more. m False s frontmatter_rx (0, []) = (3 + length meta + 4, []) # more"
proof -
  define n where "n = length s"
  define j0 where "j0 = 3 + length meta"
  define g where "g = (\<lambda>j. if prefix delimiter (drop j s) then [(j + 4, [] :: captures)] else [])"
  have len: "length (js ''---'') = 3" "length delimiter = 4" by (simp_all add: js_def delimiter_def)
  have n: "n = 3 + length meta + 4 + length rest" by (simp add: n_def s len)
  have dashes: "m False s (lit (js ''---'')) (0, []) = [(3, [])]"
    by (simp add: m_lit s len)
  have star: "m False s (Star False any_char) (3, []) = map (\<lambda>j. (j, [])) [3 ..< Suc n]"
    unfolding n_def by (rule m_lazy_any) (simp add: s len)
  have close: "concat (map (m False s Eps) (m False s (lit (js ''---\<newline>'')) (j, []))) = g j" for j
    by (simp add: m_lit g_def delimiter_def) (simp add: js_def)
  have "drop j0 s = delimiter @ rest" by (simp add: s j0_def len)
  then have gj0: "g j0 = [(j0 + 4, [])]" by (simp add: g_def)
  have gnil: "\<forall>j\<in>set [3 ..< j0]. g j = []" using first by (simp add: g_def j0_def)
  have "3 \<le> j0" "j0 < Suc n" by (simp_all add: j0_def n)
  then have "[3 ..< Suc n] = [3 ..< j0] @ j0 # [Suc j0 ..< Suc n]"
    by (metis le_add_diff_inverse less_imp_le_nat upt_add_eq_append upt_conv_Cons)
  then have "concat (map g [3 ..< Suc n]) = g j0 @ concat (map g [Suc j0 ..< Suc n])"
    using concat_map_first [OF gnil] by simp
  moreover have "m False s frontmatter_rx (0, []) = concat (map g [3 ..< Suc n])"
  proof -
    have "m False s frontmatter_rx (0, [])
          = concat (map (m False s (Seq (lit (js ''---\<newline>'')) Eps)) (m False s (Star False any_char) (3, [])))"
      unfolding frontmatter_rx_def seqs_Cons seqs_Nil
      by (simp add: dashes del: m.simps(9))
    also have "\<dots> = concat (map g [3 ..< Suc n])"
      unfolding star by (simp add: close comp_def del: upt_Suc)
    finally show ?thesis .
  qed
  ultimately show ?thesis using gj0 by (simp add: j0_def)
qed

lemma no_early_delimiter:
  fixes meta :: jsstring
  assumes free: "\<not> js_includes (meta @ js ''---'') delimiter"
    and k: "k < length meta"
  shows "\<not> prefix delimiter (drop k (meta @ delimiter @ rest))"
proof
  assume p: "prefix delimiter (drop k (meta @ delimiter @ rest))"
  define X where "X = meta @ js ''---''"
  have split: "meta @ delimiter @ rest = X @ (js ''\<newline>'' @ rest)"
    by (simp add: X_def delimiter_def js_def)
  have len: "length delimiter = 4" "length X = length meta + 3" by (simp_all add: delimiter_def js_def X_def)
  have "take 4 (drop k (X @ (js ''\<newline>'' @ rest))) = delimiter"
    using prefix_take [OF p] by (simp only: len split)
  moreover have "take 4 (drop k (X @ (js ''\<newline>'' @ rest))) = take 4 (drop k X)"
    using k len(2) by simp
  ultimately have "take 4 (drop k X) = delimiter" by simp
  then have "prefix delimiter (drop k X)" using take_is_prefix [of 4 "drop k X"] by simp
  then have "js_includes X delimiter" by (rule prefix_drop_includes)
  then show False using free by (simp add: X_def)
qed

lemma strip_frontmatter_block:
  assumes "\<not> js_includes (meta @ js ''---'') delimiter"
  shows "strip_frontmatter (js ''---'' @ meta @ delimiter @ rest) = rest"
proof -
  define s where "s = js ''---'' @ meta @ delimiter @ rest"
  have len: "length (js ''---'') = 3" "length delimiter = 4" by (simp_all add: js_def delimiter_def)
  have "\<not> prefix delimiter (drop j s)" if "3 \<le> j \<and> j < 3 + length meta" for j
  proof -
    have "drop j s = drop (j - 3) (meta @ delimiter @ rest)" using that by (simp add: s_def len)
    moreover have "j - 3 < length meta" using that by arith
    ultimately show ?thesis using no_early_delimiter [OF assms] by simp
  qed
  then obtain more where "m False s frontmatter_rx (0, []) = (3 + length meta + 4, []) # more"
    using frontmatter_match [of s meta rest] s_def by blast
  then have "match_at False frontmatter_rx s 0 = Some (0, 3 + length meta + 4, [])"
    by (simp add: match_at_def)
  then have "exec False frontmatter_rx s 0 = Some (0, 3 + length meta + 4, [])"
    by (simp add: exec_def upt_conv_Cons del: upt_Suc)
  then have "strip_frontmatter s = drop (3 + length meta + 4) s"
    by (simp add: strip_frontmatter_def replace_first_def substitution_def)
  then show ?thesis by (simp add: s_def len)
qed

section \<open>Facts about the conversion and the report\<close>

lemma replace_all_no_match: "exec ml r s 0 = None \<Longrightarrow> replace_all ml r tmpl s = s"
  by (simp add: replace_all_def replace_from.simps)

lemma replace_first_no_match: "exec ml r s 0 = None \<Longrightarrow> replace_first ml r tmpl s = s"
  by (simp add: replace_first_def)

lemma replace_first_Bol: "replace_first False Bol [Txt w] s = w @ s"
proof -
  have "match_at False Bol s 0 = Some (0, 0, [])" by (simp add: match_at_def)
  then have "exec False Bol s 0 = Some (0, 0, [])"
    by (simp add: exec_def upt_conv_Cons del: upt_Suc)
  then show ?thesis by (simp add: replace_first_def substitution_def)
qed

lemma replace_first_Eol: "replace_first False Eol [Txt w] s = s @ w"
proof -
  have "match_at False Eol s i = (if i = length s then Some (i, i, []) else None)" for i
    by (simp add: match_at_def)
  then have "exec False Eol s 0 = Some (length s, length s, [])"
    unfolding exec_def
    using first_some_upt_least [of 0 "length s" "Suc (length s)" "match_at False Eol s"]
    by simp
  then show ?thesis by (simp add: replace_first_def substitution_def)
qed

lemma content_passthrough:
  assumes "no_rule_matches slide"
  shows "content slide = js ''<p>'' @ slide @ js ''</p>''"
proof -
  have *: "exec ml r slide 0 = None" if "(ml, r) \<in> set rules" for ml r
    using assms that by (auto simp: no_rule_matches_def)
  have 1: "strip_frontmatter slide = slide"
    unfolding strip_frontmatter_def by (rule replace_first_no_match, rule *) (simp add: rules_def)
  have 2: "tweets slide = slide"
    unfolding tweets_def by (rule replace_all_no_match, rule *) (simp add: rules_def)
  have 3: "images slide = slide"
    unfolding images_def by (rule replace_all_no_match, rule *) (simp add: rules_def)
  have r: "replace_all ml r tmpl slide = slide" if "(ml, r) \<in> set rules" for ml r tmpl
    by (rule replace_all_no_match, rule *, rule that)
  have 4: "markdown slide = js ''<p>'' @ slide @ js ''</p>''"
    unfolding markdown_def comp_def
    by (simp add: r rules_def replace_first_Bol replace_first_Eol)
  show ?thesis by (simp add: content_def 1 2 3 4)
qed


lemma title_never_raises: "\<exists>ttl. title slide = Inr ttl"
proof (cases "js_match slide True title_rx")
  case None
  then show ?thesis by (simp add: title_def)
next
  case (Some mt)
  then show ?thesis by (cases mt) (simp add: title_def)
qed



section \<open>Facts about the tests and the screenshot loop\<close>


lemma includes_skip_disjoint:
  "set p \<inter> set w = {} \<Longrightarrow> w \<noteq> [] \<Longrightarrow> js_includes (p @ r) w \<Longrightarrow> js_includes r w"
proof (induction p)
  case Nil
  then show ?case by simp
next
  case (Cons x p)
  obtain y w' where w: "w = y # w'" using Cons.prems(2) by (cases w) auto
  have "y \<noteq> x" using Cons.prems(1) w by auto
  then have "\<not> prefix w (x # p @ r)" using w by simp
  then have "js_includes (p @ r) w" using Cons.prems(3) by simp
  moreover have "set p \<inter> set w = {}" using Cons.prems(1) by auto
  ultimately show ?case using Cons.IH Cons.prems(2) by blast
qed

lemma includes_append_sep:
  assumes "set w \<inter> set sep = {}" "w \<noteq> []" "sep \<noteq> []"
  shows "js_includes (x @ sep @ R) w \<Longrightarrow> js_includes x w \<or> js_includes R w"
proof (induction x)
  case Nil
  have "set sep \<inter> set w = {}" using assms(1) by auto
  then have "js_includes R w" using includes_skip_disjoint [of sep w R] assms(2) Nil by simp
  then show ?case by simp
next
  case (Cons c x)
  from Cons.prems consider "prefix w ((c # x) @ sep @ R)" | "js_includes (x @ sep @ R) w"
    by auto
  then show ?case
  proof cases
    case 1
    then consider "prefix w (c # x)" | us where "w = (c # x) @ us" "prefix us (sep @ R)"
      unfolding prefix_append by blast
    then show ?thesis
    proof cases
      case 1
      then show ?thesis by simp
    next
      case 2
      show ?thesis
      proof (cases us)
        case Nil
        then have "prefix w (c # x)" using 2(1) by simp
        then show ?thesis by simp
      next
        case (Cons u us')
        obtain p sep' where sep: "sep = p # sep'" using assms(3) by (cases sep) auto
        have "u = p" using 2(2) Cons sep by simp
        moreover have "u \<in> set w" using 2(1) Cons by simp
        moreover have "p \<in> set sep" using sep by simp
        ultimately show ?thesis using assms(1) by auto
      qed
    qed
  next
    case 2
    then show ?thesis using Cons.IH by auto
  qed
qed

lemma includes_join:
  assumes "set w \<inter> set sep = {}" "w \<noteq> []" "sep \<noteq> []"
  shows "js_includes (join xs sep) w \<Longrightarrow> \<exists>seg\<in>set xs. js_includes seg w"
proof (induction xs)
  case Nil
  then show ?case using assms(2) by simp
next
  case (Cons x xs)
  show ?case
  proof (cases xs)
    case Nil
    then show ?thesis using Cons.prems by simp
  next
    case (Cons y ys)
    then have "join (x # xs) sep = x @ sep @ join xs sep" by simp
    then have "js_includes x w \<or> js_includes (join xs sep) w"
      using Cons.prems includes_append_sep [OF assms] by simp
    then show ?thesis using Cons.IH by auto
  qed
qed

lemma join_segment:
  "seg \<in> set xs \<Longrightarrow> \<exists>a b. join xs sep = a @ seg @ b"
proof (induction xs)
  case Nil
  then show ?case by simp
next
  case (Cons x xs)
  show ?case
  proof (cases xs)
    case Nil
    then have "join (x # xs) sep = [] @ seg @ []" using Cons.prems by simp
    then show ?thesis by blast
  next
    case (Cons y ys)
    then have j: "join (x # xs) sep = x @ sep @ join xs sep" by simp
    show ?thesis
    proof (cases "seg = x")
      case True
      then have "join (x # xs) sep = [] @ seg @ (sep @ join xs sep)" using j by simp
      then show ?thesis by blast
    next
      case False
      then have "seg \<in> set xs" using Cons.prems by simp
      then obtain a b where "join xs sep = a @ seg @ b" using Cons.IH by blast
      then have "join (x # xs) sep = (x @ sep @ a) @ seg @ b" using j by simp
      then show ?thesis by blast
    qed
  qed
qed

lemma includes_split:
  assumes "set w \<inter> set sep = {}" "w \<noteq> []" "sep \<noteq> []"
  shows "js_includes T w \<longleftrightarrow> (\<exists>seg\<in>set (split T sep). js_includes seg w)"
proof
  assume "js_includes T w"
  then have "js_includes (join (split T sep) sep) w" by (simp add: join_split)
  then show "\<exists>seg\<in>set (split T sep). js_includes seg w" by (rule includes_join [OF assms])
next
  assume "\<exists>seg\<in>set (split T sep). js_includes seg w"
  then obtain seg where seg: "seg \<in> set (split T sep)" "js_includes seg w" by blast
  then obtain a b where "join (split T sep) sep = a @ seg @ b" using join_segment by blast
  then have T: "T = a @ seg @ b" by (simp add: join_split)
  obtain c d where "seg = c @ w @ d" using seg(2) unfolding js_includes_iff by blast
  then have "T = (a @ c) @ w @ (d @ b)" using T by simp
  then show "js_includes T w" unfolding js_includes_iff by blast
qed

lemma capture_from_files_kept: "prefix (files st) (files (capture_from env dir i st))"
proof (induction env dir i st rule: capture_from.induct)
  case (1 env dir i st)
  show ?case
  proof (cases "i \<le> 20")
    case False
    then show ?thesis by (subst capture_from.simps) simp
  next
    case True
    show ?thesis
    proof (cases "env i")
      case None
      define st' where "st' = fst (capture_page env dir i st)"
      have cp: "capture_page env dir i st = (st', True)"
        using None by (simp add: capture_page_def st'_def)
      have "prefix (files st') (files (capture_from env dir (Suc i) st'))"
        using "1.IH" [OF True cp [symmetric] refl] .
      moreover have "prefix (files st) (files st')"
        using None by (simp add: st'_def capture_page_def)
      ultimately have "prefix (files st) (files (capture_from env dir (Suc i) st'))"
        by (rule prefix_order.trans [rotated])
      then show ?thesis using True cp by (subst capture_from.simps) simp
    next
      case (Some e)
      then show ?thesis using True
        by (subst capture_from.simps) (simp add: capture_page_def)
    qed
  qed
qed

lemma capture_from_stops:
  assumes "i \<le> k" "k \<le> 20" "env k = Some e" "\<forall>j. i \<le> j \<and> j < k \<longrightarrow> env j = None"
  shows "capture_from env dir i st =
           st\<lparr>actions := actions st
                 @ concat (map (\<lambda>j. attempted dir j None) [i ..< k]) @ attempted dir k (Some e),
              files := files st @ map (screenshotPath dir) [i ..< k],
              console := console st @ map (\<lambda>j. js ''Captured slide '' @ decimal j) [i ..< k]
                 @ [js ''Could not capture slide '' @ decimal k @ js '': '' @ message e]\<rparr>"
  using assms
proof (induction "k - i" arbitrary: i st)
  case 0
  then have "i = k" by simp
  then show ?case using 0
    by (subst capture_from.simps) (simp add: capture_page_def)
next
  case (Suc d)
  then have lt: "i < k" by simp
  then have none: "env i = None" using Suc.prems by simp
  have up: "[i ..< k] = i # [Suc i ..< k]" using lt by (rule upt_conv_Cons)
  define st' where "st' = st\<lparr>actions := actions st @ attempted dir i None,
              files := files st @ [screenshotPath dir i],
              console := console st @ [js ''Captured slide '' @ decimal i]\<rparr>"
  have cp: "capture_page env dir i st = (st', True)"
    using none by (simp add: capture_page_def st'_def)
  have d: "d = k - Suc i" using Suc(2) by simp
  have IH: "capture_from env dir (Suc i) st' =
           st'\<lparr>actions := actions st'
                 @ concat (map (\<lambda>j. attempted dir j None) [Suc i ..< k]) @ attempted dir k (Some e),
              files := files st' @ map (screenshotPath dir) [Suc i ..< k],
              console := console st' @ map (\<lambda>j. js ''Captured slide '' @ decimal j) [Suc i ..< k]
                 @ [js ''Could not capture slide '' @ decimal k @ js '': '' @ message e]\<rparr>"
    using Suc(1) [OF d, of st'] lt Suc.prems by simp
  have "capture_from env dir i st = capture_from env dir (Suc i) st'"
    using lt Suc.prems(2) cp by (subst capture_from.simps) simp
  then show ?case unfolding IH up by (simp add: st'_def)
qed

lemma capture_from_all:
  assumes "i \<le> 21" "\<forall>j. i \<le> j \<and> j \<le> 20 \<longrightarrow> env j = None"
  shows "capture_from env dir i st =
           st\<lparr>actions := actions st @ concat (map (\<lambda>j. attempted dir j None) [i ..< 21]),
              files := files st @ map (screenshotPath dir) [i ..< 21],
              console := console st @ map (\<lambda>j. js ''Captured slide '' @ decimal j) [i ..< 21]\<rparr>"
  using assms
proof (induction "21 - i" arbitrary: i st)
  case 0
  then have "i = 21" by simp
  then show ?case by (subst capture_from.simps) simp
next
  case (Suc d)
  then have lt: "i < 21" by simp
  then have none: "env i = None" using Suc.prems by simp
  have up: "[i ..< 21] = i # [Suc i ..< 21]" using lt by (rule upt_conv_Cons)
  define st' where "st' = st\<lparr>actions := actions st @ attempted dir i None,
              files := files st @ [screenshotPath dir i],
              console := console st @ [js ''Captured slide '' @ decimal i]\<rparr>"
  have cp: "capture_page env dir i st = (st', True)"
    using none by (simp add: capture_page_def st'_def)
  have d: "d = 21 - Suc i" using Suc(2) by simp
  have IH: "capture_from env dir (Suc i) st' =
           st'\<lparr>actions := actions st' @ concat (map (\<lambda>j. attempted dir j None) [Suc i ..< 21]),
              files := files st' @ map (screenshotPath dir) [Suc i ..< 21],
              console := console st' @ map (\<lambda>j. js ''Captured slide '' @ decimal j) [Suc i ..< 21]\<rparr>"
    using Suc(1) [OF d, of st'] lt Suc.prems by simp
  have "capture_from env dir i st = capture_from env dir (Suc i) st'"
    using lt cp by (subst capture_from.simps) simp
  then show ?case unfolding IH up by (simp add: st'_def)
qed

lemma strip_frontmatter_slide:
  assumes "slide \<in> set (slideArray_preview T)"
  shows "strip_frontmatter slide = slide"
proof -
  have "slide \<in> set (split T delimiter)" using assms by (simp add: slideArray_preview_def)
  then have "\<not> js_includes slide delimiter" by (rule slide_no_delimiter)
  then show ?thesis by (rule strip_frontmatter_id)
qed


lemma screenshot_paths_distinct: "distinct (map (screenshotPath dir) [1 ..< 21])"
proof -
  have d: "distinct (map (\<lambda>i. padStart2 (decimal i)) [1 ..< 21])" by code_simp
  have "inj (\<lambda>x. dir @ js ''/slide-'' @ x @ js ''.png'')" by (simp add: inj_def)
  then have "distinct (map (\<lambda>x. dir @ js ''/slide-'' @ x @ js ''.png'') (map (\<lambda>i. padStart2 (decimal i)) [1 ..< 21]))"
    using d by (simp only: distinct_map) (auto intro: inj_on_subset)
  moreover have "screenshotPath dir = (\<lambda>i. dir @ js ''/slide-'' @ padStart2 (decimal i) @ js ''.png'')"
    by (rule ext) (simp add: screenshotPath_def)
  ultimately show ?thesis by (simp add: comp_def del: upt_Suc)
qed






lemma forEach_total:
  assumes "\<And>i x. f i x = Inr (g i x)"
  shows "forEach f k xs = Inr (concat (map (\<lambda>(i, x). g i x) (enumerate k xs)))"
  by (induction xs arbitrary: k) (simp_all add: assms)

lemma verify_slides_report:
  assumes "i < length (slideArray_verify T)" "title (slideArray_verify T ! i) = Inr ttl"
  shows "\<exists>out. verify_slides T = Inr out
           \<and> set (report i (slideArray_verify T ! i) ttl) \<subseteq> set out"
proof -
  define g where "g = (\<lambda>i slide. report i slide (case title slide of Inr t \<Rightarrow> t | Inl e \<Rightarrow> []))"
  define xs where "xs = split T delimiter"
  have "verify_slide k x = Inr (g k x)" for k x
    using title_never_raises [of x] by (auto simp: verify_slide_def g_def)
  then have fe: "forEach verify_slide 0 xs = Inr (concat (map (\<lambda>(i, x). g i x) (enumerate 0 xs)))"
    by (rule forEach_total)
  have i: "i < length xs" and t: "title (xs ! i) = Inr ttl"
    using assms by (simp_all add: xs_def slideArray_verify_def)
  then have "(i, xs ! i) \<in> set (enumerate 0 xs)" by (simp add: in_set_enumerate_eq)
  then have "set (g i (xs ! i)) \<subseteq> set (concat (map (\<lambda>(i, x). g i x) (enumerate 0 xs)))"
    by (auto simp del: enumerate_eq_zip)
  moreover have "g i (xs ! i) = report i (xs ! i) ttl" using t by (simp add: g_def)
  ultimately show ?thesis
    using fe by (auto simp: verify_slides_def xs_def [symmetric] slideArray_verify_def)
qed


section \<open>The claims\<close>

subsection \<open>C1: one slide per segment\<close>

text \<open>
  C1 as stated fails for \<open>generate-preview.js\<close>: the empty segment before a leading
  delimiter is a segment of the text, but not a slide of the deck.
\<close>

theorem C1_preview_drops_empty_segment:
  "split (js ''---\<newline># A'') delimiter = [[], js ''# A'']
   \<and> slideArray_preview (js ''---\<newline># A'') = [js ''# A'']"
  by (simp add: slideArray_preview_def split_def delimiter_def js_def trim_def
      is_space_def is_white_space_def is_line_terminator_def)

text \<open>
  C1 (amended).  Take any non-empty sequence of delimiter-free segments and write them
  out with the delimiter between them.  \<open>verify-slides.js\<close> gets back exactly these
  segments, in order, the empty ones at the ends and in the middle included: one slide
  per segment.  \<open>generate-preview.js\<close> gets back the same segments in the same order
  except those that are empty or consist of white space only, which its filter removes.
\<close>

theorem C1_one_slide_per_segment:
  assumes "segs \<noteq> []" and "\<forall>g\<in>set segs. \<not> js_includes g delimiter"
  shows "slideArray_verify (join segs delimiter) = segs
         \<and> slideArray_preview (join segs delimiter) = filter (\<lambda>s. trim s \<noteq> []) segs"
proof -
  have "split_at delimiter (join segs delimiter) = segs"
    using assms by (rule split_at_join [OF unbordered_delimiter delimiter_not_Nil])
  then show ?thesis
    by (simp add: slideArray_verify_def slideArray_preview_def split_def delimiter_not_Nil)
qed

theorem C1_one_slide_per_segment_witness:
  "slideArray_verify (js ''---\<newline># A\<newline>---\<newline> \<newline>---\<newline>'')
     = [[], js ''# A\<newline>'', js '' \<newline>'', []]
   \<and> slideArray_preview (js ''---\<newline># A\<newline>---\<newline> \<newline>---\<newline>'')
     = [js ''# A\<newline>'']"
proof -
  have "[[], js ''# A\<newline>'', js '' \<newline>'', []] \<noteq> []" by simp
  moreover have "\<forall>g\<in>set [[], js ''# A\<newline>'', js '' \<newline>'', []]. \<not> js_includes g delimiter"
    by (simp add: delimiter_def js_def)
  ultimately show ?thesis
    using C1_one_slide_per_segment [of "[[], js ''# A\<newline>'', js '' \<newline>'', []]"]
    by (simp add: delimiter_def js_def trim_def is_space_def is_white_space_def
        is_line_terminator_def)
qed

subsection \<open>C2: the length thresholds\<close>




subsection \<open>C3: joining the slides gives the text back\<close>

text \<open>
  C3 as stated fails for \<open>generate-preview.js\<close>: joining its slides does not give back a
  text that starts with a delimiter.
\<close>

theorem C3_preview_join_loses_text:
  "join (slideArray_preview (js ''---\<newline># A'')) delimiter \<noteq> js ''---\<newline># A''"
  by (simp add: slideArray_preview_def split_def delimiter_def js_def trim_def
      is_space_def is_white_space_def is_line_terminator_def)

text \<open>
  C3 (amended).  For every text, joining the slides of \<open>verify-slides.js\<close> with the
  delimiter gives the text back, code unit for code unit.  For the slides of
  \<open>generate-preview.js\<close> the same holds when no segment of the text is empty or white
  space only, that is, when its filter removes nothing.
\<close>

theorem C3_join_split_roundtrip:
  "join (slideArray_verify T) delimiter = T
   \<and> ((\<forall>s\<in>set (split T delimiter). trim s \<noteq> []) \<longrightarrow>
        join (slideArray_preview T) delimiter = T)"
proof -
  have a: "join (split T delimiter) delimiter = T" by (rule join_split)
  have "filter (\<lambda>s. trim s \<noteq> []) (split T delimiter) = split T delimiter"
    if "\<forall>s\<in>set (split T delimiter). trim s \<noteq> []"
    using that by (simp add: filter_id_conv)
  then show ?thesis using a by (simp add: slideArray_verify_def slideArray_preview_def)
qed

theorem C3_join_split_roundtrip_witness:
  "split (js ''# A\<newline>---\<newline># B'') delimiter = [js ''# A\<newline>'', js ''# B'']
   \<and> trim (js ''# A\<newline>'') \<noteq> [] \<and> trim (js ''# B'') \<noteq> []
   \<and> join (slideArray_preview (js ''# A\<newline>---\<newline># B'')) delimiter = js ''# A\<newline>---\<newline># B''"
proof -
  have s: "split (js ''# A\<newline>---\<newline># B'') delimiter = [js ''# A\<newline>'', js ''# B'']"
    by (simp add: split_def delimiter_def js_def)
  have t: "trim (js ''# A\<newline>'') \<noteq> [] \<and> trim (js ''# B'') \<noteq> []"
    by (simp add: js_def trim_def is_space_def is_white_space_def is_line_terminator_def)
  show ?thesis
    using C3_join_split_roundtrip [of "js ''# A\<newline>---\<newline># B''"] s t by simp
qed

subsection \<open>C4: the metadata block\<close>

text \<open>
  C4.  The first step of the conversion is meant to remove a leading metadata block
  (\<open>strip_frontmatter_block\<close> shows that it does so on a text that starts with one), and
  it changes no slide other than the first.  But the deck has been split on the delimiter
  before, so no slide contains a delimiter and the step changes no slide at all
  (\<open>strip_frontmatter_slide\<close>): the metadata of a deck is not removed, it is rendered as a
  slide of its own.  The theorem evaluates the script on such a deck.
\<close>

theorem C4_frontmatter_left_in_place:
  "slideArray_preview (js ''---\<newline>theme: x\<newline>---\<newline># Hi\<newline>'') = [js ''theme: x\<newline>'', js ''# Hi\<newline>'']
   \<and> strip_frontmatter (js ''theme: x\<newline>'') = js ''theme: x\<newline>''
   \<and> content (js ''theme: x\<newline>'') = js ''<p>theme: x\<newline></p>''"
proof -
  have a: "slideArray_preview (js ''---\<newline>theme: x\<newline>---\<newline># Hi\<newline>'') = [js ''theme: x\<newline>'', js ''# Hi\<newline>'']"
    by (simp add: slideArray_preview_def split_def delimiter_def js_def trim_def is_space_def
        is_white_space_def is_line_terminator_def)
  have "js ''theme: x\<newline>'' \<in> set (slideArray_preview (js ''---\<newline>theme: x\<newline>---\<newline># Hi\<newline>''))"
    unfolding a by simp
  then have b: "strip_frontmatter (js ''theme: x\<newline>'') = js ''theme: x\<newline>''"
    by (rule strip_frontmatter_slide)
  have "no_rule_matches (js ''theme: x\<newline>'')"
    unfolding no_rule_matches_def rules_def by code_simp
  then have c: "content (js ''theme: x\<newline>'') = js ''<p>theme: x\<newline></p>''"
    using content_passthrough [of "js ''theme: x\<newline>''"] by (simp add: js_def)
  show ?thesis using a b c by simp
qed

subsection \<open>C5: text that matches no pattern\<close>




subsection \<open>C6: the order of the markers\<close>



subsection \<open>C7: nothing raises\<close>



subsection \<open>C8: forbidden substrings\<close>

text \<open>
  C8 as stated fails for \<open>verify-slides.js\<close>: a deck that contains \<open>null\<close> gets no
  issue.
\<close>

theorem C8_verify_slides_ignores_null:
  "js_includes (js ''null'') (js ''null'')
   \<and> slideArray_verify (js ''null'') = [js ''null'']
   \<and> issues (js ''null'') = []"
  by (simp add: slideArray_verify_def split_def delimiter_def issues_def content_lines_def js_def
      trim_def is_space_def is_white_space_def is_line_terminator_def)

text \<open>
  C8 (amended).  The formatting test of \<open>visual.test.js\<close> fails for exactly the deck texts
  that contain \<open>undefined\<close>, \<open>[object\<close> or \<open>null\<close>.  \<open>verify-slides.js\<close> reports
  ``Contains undefined'' for some slide exactly when the deck text contains \<open>undefined\<close>,
  and ``Contains [object'' exactly when it contains \<open>[object\<close>; it has no check for
  \<open>null\<close>.
\<close>

theorem C8_forbidden_substrings:
  "(formatting_test T \<noteq> None \<longleftrightarrow>
      js_includes T (js ''undefined'') \<or> js_includes T (js ''[object'') \<or> js_includes T (js ''null''))
   \<and> ((\<exists>slide\<in>set (slideArray_verify T). ([0x274C] @ js '' Contains undefined'') \<in> set (issues slide))
        \<longleftrightarrow> js_includes T (js ''undefined''))
   \<and> ((\<exists>slide\<in>set (slideArray_verify T). ([0x274C] @ js '' Contains [object'') \<in> set (issues slide))
        \<longleftrightarrow> js_includes T (js ''[object''))"
proof (intro conjI)
  show "formatting_test T \<noteq> None \<longleftrightarrow>
      js_includes T (js ''undefined'') \<or> js_includes T (js ''[object'') \<or> js_includes T (js ''null'')"
    by (simp add: formatting_test_def)
next
  have "([0x274C] @ js '' Contains undefined'') \<in> set (issues slide) \<longleftrightarrow> js_includes slide (js ''undefined'')"
    for slide
    by (simp add: issues_def) (simp add: js_def)
  moreover have "js_includes T (js ''undefined'') \<longleftrightarrow>
      (\<exists>seg\<in>set (split T delimiter). js_includes seg (js ''undefined''))"
    by (rule includes_split) (simp_all add: js_def delimiter_def)
  ultimately show "(\<exists>slide\<in>set (slideArray_verify T). ([0x274C] @ js '' Contains undefined'') \<in> set (issues slide))
        \<longleftrightarrow> js_includes T (js ''undefined'')"
    by (simp add: slideArray_verify_def)
next
  have "([0x274C] @ js '' Contains [object'') \<in> set (issues slide) \<longleftrightarrow> js_includes slide (js ''[object'')"
    for slide
    by (simp add: issues_def) (simp add: js_def)
  moreover have "js_includes T (js ''[object'') \<longleftrightarrow>
      (\<exists>seg\<in>set (split T delimiter). js_includes seg (js ''[object''))"
    by (rule includes_split) (simp_all add: js_def delimiter_def)
  ultimately show "(\<exists>slide\<in>set (slideArray_verify T). ([0x274C] @ js '' Contains [object'') \<in> set (issues slide))
        \<longleftrightarrow> js_includes T (js ''[object'')"
    by (simp add: slideArray_verify_def)
qed

subsection \<open>C9: the screenshot loop\<close>

text \<open>
  C9.  The loop never removes a screenshot file that exists.  When page \<open>k\<close> is the first
  page whose capture throws, the loop has visited the pages 1 to \<open>k\<close> in this order, each
  navigation followed by the fixed wait of 1000 ms, it has written the screenshots of the
  pages before \<open>k\<close> and no other, it has logged the error of page \<open>k\<close> as its last line,
  and it has not touched the pages after \<open>k\<close>.  When no capture throws, all 20 pages are
  captured in order.  The paths of the 20 screenshots are distinct: no page overwrites the
  screenshot of another.
\<close>

theorem C9_capture_stops_and_keeps:
  "prefix (files st) (files (capture_loop env dir st))
   \<and> (1 \<le> k \<and> k \<le> 20 \<and> env k = Some e \<and> (\<forall>j. 1 \<le> j \<and> j < k \<longrightarrow> env j = None) \<longrightarrow>
        capture_loop env dir st =
          st\<lparr>actions := actions st
                @ concat (map (\<lambda>j. [Goto j, WaitForTimeout 1000, Screenshot (screenshotPath dir j)]) [1 ..< k])
                @ attempted dir k (Some e),
             files := files st @ map (screenshotPath dir) [1 ..< k],
             console := console st @ map (\<lambda>j. js ''Captured slide '' @ decimal j) [1 ..< k]
                @ [js ''Could not capture slide '' @ decimal k @ js '': '' @ message e]\<rparr>)
   \<and> ((\<forall>j. 1 \<le> j \<and> j \<le> 20 \<longrightarrow> env j = None) \<longrightarrow>
        capture_loop env dir st =
          st\<lparr>actions := actions st
                @ concat (map (\<lambda>j. [Goto j, WaitForTimeout 1000, Screenshot (screenshotPath dir j)]) [1 ..< 21]),
             files := files st @ map (screenshotPath dir) [1 ..< 21],
             console := console st @ map (\<lambda>j. js ''Captured slide '' @ decimal j) [1 ..< 21]\<rparr>)
   \<and> distinct (map (screenshotPath dir) [1 ..< 21])"
proof (intro conjI impI)
  show "prefix (files st) (files (capture_loop env dir st))"
    unfolding capture_loop_def by (rule capture_from_files_kept)
next
  assume "1 \<le> k \<and> k \<le> 20 \<and> env k = Some e \<and> (\<forall>j. 1 \<le> j \<and> j < k \<longrightarrow> env j = None)"
  then show "capture_loop env dir st =
          st\<lparr>actions := actions st
                @ concat (map (\<lambda>j. [Goto j, WaitForTimeout 1000, Screenshot (screenshotPath dir j)]) [1 ..< k])
                @ attempted dir k (Some e),
             files := files st @ map (screenshotPath dir) [1 ..< k],
             console := console st @ map (\<lambda>j. js ''Captured slide '' @ decimal j) [1 ..< k]
                @ [js ''Could not capture slide '' @ decimal k @ js '': '' @ message e]\<rparr>"
    unfolding capture_loop_def using capture_from_stops [of 1 k env e dir st] by simp
next
  assume "\<forall>j. 1 \<le> j \<and> j \<le> 20 \<longrightarrow> env j = None"
  then show "capture_loop env dir st =
          st\<lparr>actions := actions st
                @ concat (map (\<lambda>j. [Goto j, WaitForTimeout 1000, Screenshot (screenshotPath dir j)]) [1 ..< 21]),
             files := files st @ map (screenshotPath dir) [1 ..< 21],
             console := console st @ map (\<lambda>j. js ''Captured slide '' @ decimal j) [1 ..< 21]\<rparr>"
    unfolding capture_loop_def using capture_from_all [of 1 env dir st] by simp
next
  show "distinct (map (screenshotPath dir) [1 ..< 21])" by (rule screenshot_paths_distinct)
qed

theorem C9_capture_stops_and_keeps_witness:
  "files (capture_loop (\<lambda>i. if i = 3 then Some (ScreenshotFails (js ''boom'')) else None) (js ''shots'')
           \<lparr>actions = [], files = [], console = []\<rparr>)
     = [js ''shots/slide-01.png'', js ''shots/slide-02.png'']
   \<and> console (capture_loop (\<lambda>i. if i = 3 then Some (ScreenshotFails (js ''boom'')) else None) (js ''shots'')
           \<lparr>actions = [], files = [], console = []\<rparr>)
     = [js ''Captured slide 1'', js ''Captured slide 2'', js ''Could not capture slide 3: boom'']"
proof -
  let ?env = "\<lambda>i::nat. if i = 3 then Some (ScreenshotFails (js ''boom'')) else None"
  have h: "(1::nat) \<le> 3 \<and> (3::nat) \<le> 20 \<and> ?env 3 = Some (ScreenshotFails (js ''boom''))
           \<and> (\<forall>j. 1 \<le> j \<and> j < 3 \<longrightarrow> ?env j = None)"
    by simp
  have u: "[1 ..< 3] = [1, 2::nat]" by (simp add: upt_rec)
  have p: "map (screenshotPath (js ''shots'')) [1, 2] = [js ''shots/slide-01.png'', js ''shots/slide-02.png'']"
    by code_simp
  have c: "map (\<lambda>j. js ''Captured slide '' @ decimal j) [1, 2] = [js ''Captured slide 1'', js ''Captured slide 2'']"
    by code_simp
  have d: "js ''Could not capture slide '' @ decimal 3 @ js '': '' @ js ''boom'' = js ''Could not capture slide 3: boom''"
    by code_simp
  show ?thesis
    using C9_capture_stops_and_keeps [of "\<lparr>actions = [], files = [], console = []\<rparr>" ?env "js ''shots''" 3
        "ScreenshotFails (js ''boom'')"] h
    by (simp only: u p c) (simp add: d)
qed

subsection \<open>C10: the title of a slide\<close>

text \<open>
  C10.  When no level-1 heading line starts anywhere in a slide, \<open>verify-slides.js\<close>
  does not fail and reports the slide under the title \<open>No title\<close>; when there is such a
  line, the reported title is the text of the first one after its \<open># \<close>.  The title is
  part of the first line of the report of the slide, and the report of a deck has this
  line for each of its slides without a heading line.
\<close>

theorem C10_title_or_fallback:
  "((\<forall>i<length slide. \<not> heading_line_at slide i) \<longrightarrow>
      verify_slide index slide = Inr (report index slide (js ''No title'')))
   \<and> (heading_line_at slide i \<and> (\<forall>j<i. \<not> heading_line_at slide j) \<longrightarrow>
      verify_slide index slide = Inr (report index slide (rest_of_line slide (i + 2))))
   \<and> hd (report index slide ttl) = js ''Slide '' @ decimal (index + 1) @ js '': '' @ ttl
   \<and> (n < length (slideArray_verify T)
        \<and> (\<forall>i<length (slideArray_verify T ! n). \<not> heading_line_at (slideArray_verify T ! n) i) \<longrightarrow>
      (\<exists>out. verify_slides T = Inr out
          \<and> (js ''Slide '' @ decimal (n + 1) @ js '': '' @ js ''No title'') \<in> set out))"
proof (intro conjI impI)
  assume "\<forall>i<length slide. \<not> heading_line_at slide i"
  then show "verify_slide index slide = Inr (report index slide (js ''No title''))"
    by (simp add: verify_slide_def title_fallback)
next
  assume "heading_line_at slide i \<and> (\<forall>j<i. \<not> heading_line_at slide j)"
  then have "title slide = Inr (rest_of_line slide (i + 2))"
    using title_first_heading [of slide i] by blast
  then show "verify_slide index slide = Inr (report index slide (rest_of_line slide (i + 2)))"
    unfolding verify_slide_def by simp
next
  show "hd (report index slide ttl) = js ''Slide '' @ decimal (index + 1) @ js '': '' @ ttl"
    by (simp add: report_def)
next
  assume h: "n < length (slideArray_verify T)
        \<and> (\<forall>i<length (slideArray_verify T ! n). \<not> heading_line_at (slideArray_verify T ! n) i)"
  then have "title (slideArray_verify T ! n) = Inr (js ''No title'')"
    by (simp add: title_fallback)
  then obtain out where out: "verify_slides T = Inr out"
    "set (report n (slideArray_verify T ! n) (js ''No title'')) \<subseteq> set out"
    using verify_slides_report [of n T "js ''No title''"] h by blast
  have "(js ''Slide '' @ decimal (n + 1) @ js '': '' @ js ''No title'')
          \<in> set (report n (slideArray_verify T ! n) (js ''No title''))"
    by (simp add: report_def)
  then show "\<exists>out. verify_slides T = Inr out
          \<and> (js ''Slide '' @ decimal (n + 1) @ js '': '' @ js ''No title'') \<in> set out"
    using out by blast
qed

theorem C10_title_or_fallback_witness:
  "verify_slide 3 (js ''##x\<newline>#y'') = Inr (report 3 (js ''##x\<newline>#y'') (js ''No title''))
   \<and> heading_line_at (js ''a\<newline># T1\<newline># T2'') 2
   \<and> \<not> heading_line_at (js ''a\<newline># T1\<newline># T2'') 0
   \<and> \<not> heading_line_at (js ''a\<newline># T1\<newline># T2'') 1
   \<and> verify_slide 0 (js ''a\<newline># T1\<newline># T2'') = Inr (report 0 (js ''a\<newline># T1\<newline># T2'') (js ''T1''))
   \<and> (\<exists>out. verify_slides (js ''##x\<newline>#y'') = Inr out \<and> js ''Slide 1: No title'' \<in> set out)"
proof -
  have a: "\<forall>i<length (js ''##x\<newline>#y''). \<not> heading_line_at (js ''##x\<newline>#y'') i"
    by (simp add: js_def heading_line_at_def is_line_terminator_def less_Suc_eq)
  have b: "heading_line_at (js ''a\<newline># T1\<newline># T2'') 2"
    by (simp add: js_def heading_line_at_def is_line_terminator_def)
  have c: "\<forall>j<2. \<not> heading_line_at (js ''a\<newline># T1\<newline># T2'') j"
    by (simp add: js_def heading_line_at_def is_line_terminator_def less_2_cases_iff)
  have d: "rest_of_line (js ''a\<newline># T1\<newline># T2'') (2 + 2) = js ''T1''"
    by (simp add: js_def rest_of_line_def is_line_terminator_def)
  have e: "slideArray_verify (js ''##x\<newline>#y'') = [js ''##x\<newline>#y'']"
    by (simp add: slideArray_verify_def split_def delimiter_def js_def)
  have f: "js ''Slide '' @ decimal (0 + 1) @ js '': '' @ js ''No title'' = js ''Slide 1: No title''"
    by code_simp
  have g: "\<exists>out. verify_slides (js ''##x\<newline>#y'') = Inr out \<and> js ''Slide 1: No title'' \<in> set out"
    using C10_title_or_fallback [of "js ''##x\<newline>#y''" 3 0 "[]" 0 "js ''##x\<newline>#y''"] a
    unfolding e f by simp
  show ?thesis
    using C10_title_or_fallback [of "js ''##x\<newline>#y''" 3 0 "[]" 0 "js ''##x\<newline>#y''"]
      C10_title_or_fallback [of "js ''a\<newline># T1\<newline># T2''" 0 2 "[]" 0 "[]"] a b c d g
    by simp
qed

end
